theory Spec2Isabelle
  imports Complex_Main
begin

section \<open>JSON values\<close>

text \<open>
  The values a parsed API description is made of. A number is the parsed number (only
  whether it is zero matters to the responder); an object is the list of its own
  properties in the order \<open>for ... in\<close> and \<open>JSON.stringify\<close> visit them. The JavaScript
  value \<open>undefined\<close> is the absence of a value (\<open>None\<close>) wherever a field is optional.
\<close>

datatype json =
    JNull
  | JBool bool
  | JNum rat
  | JStr string
  | JArr "json list"
  | JObj "(string \<times> json) list"

text \<open>ToBoolean, as \<open>||\<close>, \<open>!\<close> and \<open>if\<close> apply it.\<close>

fun truthy :: "json \<Rightarrow> bool" where
  "truthy JNull = False"
| "truthy (JBool b) = b"
| "truthy (JNum n) = (n \<noteq> 0)"
| "truthy (JStr s) = (s \<noteq> [])"
| "truthy (JArr _) = True"
| "truthy (JObj _) = True"

text \<open>\<open>x || ...\<close> on an optional string: the string when it is present and not empty.\<close>

definition nonempty :: "string option \<Rightarrow> string option" where
  "nonempty x = (case x of None \<Rightarrow> None | Some s \<Rightarrow> if s = [] then None else Some s)"

text \<open>\<open>x || d\<close> on an optional JSON value \<open>x\<close> and a literal \<open>d\<close>.\<close>

definition or_default :: "json option \<Rightarrow> json \<Rightarrow> json" where
  "or_default x d = (case x of None \<Rightarrow> d | Some v \<Rightarrow> if truthy v then v else d)"


section \<open>String operations\<close>

text \<open>
  \<open>cleanPath\<close> (line 21): \<open>path.replace(/\/\//g, '/')\<close>. A global replace scans once from
  the left; each match of two separators is replaced by one and the scan goes on after
  the match.
\<close>

fun cleanPath :: "string \<Rightarrow> string" where
  "cleanPath (a # b # cs) =
     (if a = CHR ''/'' \<and> b = CHR ''/'' then CHR ''/'' # cleanPath cs
      else a # cleanPath (b # cs))"
| "cleanPath cs = cs"

text \<open>
  \<open>stripTrailingSlash\<close> (lines 92 to 94): \<open>str?.replace(/\/$/,'') || str\<close> on a string. The
  pattern matches one separator at the end of the input; when the replacement leaves
  the empty string, which is falsy, \<open>||\<close> gives the argument back.
\<close>

definition stripTrailingSlash :: "string \<Rightarrow> string" where
  "stripTrailingSlash str =
     (let r = (if str \<noteq> [] \<and> last str = CHR ''/'' then butlast str else str)
      in if r = [] then str else r)"

text \<open>
  A string is a list of characters. A character below 128 is the ASCII character of that
  code. The characters from 128 on carry what a JavaScript string has outside ASCII, in an
  encoding that uses none of the first 128 characters for it (UTF-8 does): comparing,
  joining and the two patterns above, which look for the ASCII separator, are then the
  same on the list as on the JavaScript string.
\<close>

fun is_ascii :: "string \<Rightarrow> bool" where
  "is_ascii [] = True"
| "is_ascii (c # cs) = (\<not> digit7 c \<and> is_ascii cs)"

text \<open>
  \<open>toUpperCase\<close> (line 55). On a string of ASCII characters the letters \<open>a\<close> to \<open>z\<close> are
  replaced by \<open>A\<close> to \<open>Z\<close> and every other character stays. On a string with a character
  outside ASCII the result follows the case mappings of the Unicode Character Database,
  which the engine brings and this repository does not hold: there the result is \<open>uc s\<close>,
  where the parameter \<open>uc\<close> is the upper-casing of the engine on such strings. Nothing is
  assumed of \<open>uc\<close>; its result can be longer than its argument, as \<open>SS\<close> for the sharp s.
\<close>

definition lower_letters :: string where
  "lower_letters = ''abcdefghijklmnopqrstuvwxyz''"

definition upper_letters :: string where
  "upper_letters = ''ABCDEFGHIJKLMNOPQRSTUVWXYZ''"

definition upper_char :: "char \<Rightarrow> char" where
  "upper_char c = (case map_of (zip lower_letters upper_letters) c of Some u \<Rightarrow> u | None \<Rightarrow> c)"

definition toUpperCase :: "(string \<Rightarrow> string) \<Rightarrow> string \<Rightarrow> string" where
  "toUpperCase uc s = (if is_ascii s then map upper_char s else uc s)"

text \<open>Two adjacent separators somewhere in a string; three adjacent separators.\<close>

fun has_double :: "string \<Rightarrow> bool" where
  "has_double (a # b # cs) = ((a = CHR ''/'' \<and> b = CHR ''/'') \<or> has_double (b # cs))"
| "has_double cs = False"

fun has_triple :: "string \<Rightarrow> bool" where
  "has_triple (a # b # c # cs) =
     ((a = CHR ''/'' \<and> b = CHR ''/'' \<and> c = CHR ''/'') \<or> has_triple (b # c # cs))"
| "has_triple cs = False"

text \<open>A doubled separator exactly where \<open>a + b\<close> joins its operands.\<close>

definition double_at_join :: "string \<Rightarrow> string \<Rightarrow> bool" where
  "double_at_join a b = (a \<noteq> [] \<and> last a = CHR ''/'' \<and> b \<noteq> [] \<and> hd b = CHR ''/'')"


section \<open>Ordinary objects\<close>

text \<open>
  An ordinary object is the list of its own enumerable properties in property order:
  array-index keys first, by ascending value, then the other keys in the order they were
  created. An array index is the canonical decimal form of an integer below \<open>2^32 - 1\<close>.
\<close>

type_synonym 'v obj = "(string \<times> 'v) list"

definition digit_val :: "char \<Rightarrow> int option" where
  "digit_val c = map_of (zip ''0123456789'' [0, 1, 2, 3, 4, 5, 6, 7, 8, 9]) c"

definition index_val :: "string \<Rightarrow> int" where
  "index_val s = foldl (\<lambda>n c. 10 * n + (case digit_val c of Some d \<Rightarrow> d | None \<Rightarrow> 0)) 0 s"

definition is_array_index :: "string \<Rightarrow> bool" where
  "is_array_index s =
     (s \<noteq> [] \<and> list_all (\<lambda>c. digit_val c \<noteq> None) s
      \<and> (s = ''0'' \<or> hd s \<noteq> CHR ''0'')
      \<and> index_val s < 4294967295)"

text \<open>Creating a property whose key is an array index: it goes before the first
  property that is not a smaller array index.\<close>

fun insert_index :: "string \<Rightarrow> 'v \<Rightarrow> 'v obj \<Rightarrow> 'v obj" where
  "insert_index k v [] = [(k, v)]"
| "insert_index k v ((k', v') # ps) =
     (if is_array_index k' \<and> index_val k' < index_val k
      then (k', v') # insert_index k v ps
      else (k, v) # (k', v') # ps)"

text \<open>Writing an existing property: it keeps its place and takes the new value.\<close>

fun replace_value :: "string \<Rightarrow> 'v \<Rightarrow> 'v obj \<Rightarrow> 'v obj" where
  "replace_value k v [] = []"
| "replace_value k v ((k', v') # ps) =
     (if k' = k then (k', v) else (k', v')) # replace_value k v ps"

text \<open>
  \<open>o[k] = v\<close> on own data properties: an existing property is written, a new one is
  created in property order.
\<close>

definition obj_set :: "string \<Rightarrow> 'v \<Rightarrow> 'v obj \<Rightarrow> 'v obj" where
  "obj_set k v ps =
     (if map_of ps k \<noteq> None then replace_value k v ps
      else if is_array_index k then insert_index k v ps
      else ps @ [(k, v)])"

text \<open>
  The objects the responder builds are object literals, so their prototype is
  \<open>Object.prototype\<close>. Reading a key that is not an own property finds the property of
  that name on \<open>Object.prototype\<close>, if there is one: each is a function, or for
  \<open>__proto__\<close> the prototype object itself, hence truthy.
\<close>

definition object_prototype_keys :: "string list" where
  "object_prototype_keys =
     [''constructor'', ''__defineGetter__'', ''__defineSetter__'', ''hasOwnProperty'',
      ''__lookupGetter__'', ''__lookupSetter__'', ''isPrototypeOf'',
      ''propertyIsEnumerable'', ''toString'', ''valueOf'', ''__proto__'',
      ''toLocaleString'']"

text \<open>\<open>!o[k]\<close> is false exactly when this holds.\<close>

definition truthy_at :: "json obj \<Rightarrow> string \<Rightarrow> bool" where
  "truthy_at ps k =
     (case map_of ps k of Some v \<Rightarrow> truthy v | None \<Rightarrow> k \<in> set object_prototype_keys)"


section \<open>The API description\<close>

text \<open>
  The document \<open>getSwaggerDoc()\<close> returns, with the shape the responder reads: every
  field is optional (\<open>None\<close> is an absent or \<open>null\<close> field), \<open>info\<close> maps keys to arbitrary
  JSON values, and an operation slot of a path item may hold \<open>null\<close>. A \<open>null\<close> server
  entry is read like an entry without \<open>url\<close>.
\<close>

record server =
  url :: "string option"

record operation =
  operationId :: "string option"
  description :: "string option"
  summary :: "string option"
  tags :: "string list option"

type_synonym path_item = "(operation option) obj"

record swagger_doc =
  servers :: "server list option"
  basePath :: "string option"
  info :: "json obj option"
  paths :: "path_item obj option"

text \<open>
  What is thrown. \<open>getSwaggerDoc\<close> can throw any value: \<open>null\<close> or \<open>undefined\<close> (\<open>Nullish\<close>);
  an object whose \<open>message\<close> or \<open>stack\<close> is an accessor that throws, given by what the
  accessor throws (\<open>Unreadable\<close>); or any other value, given by what its properties
  \<open>message\<close> and \<open>stack\<close> read as (\<open>Thrown\<close>), each \<open>None\<close> when the read gives \<open>undefined\<close>, as
  on a thrown string. The engine throws the \<open>TypeError\<close> of reading the named property of
  \<open>undefined\<close> or \<open>null\<close>, an object with a message and a stack.
\<close>

datatype js_exn =
    Thrown "json option" "json option"
  | Nullish
  | Unreadable js_exn
  | TypeError string


section \<open>The responder\<close>

type_synonym entry = "json obj"
type_synonym links = "entry obj"

definition default_basePath :: string where
  "default_basePath = ''/tmf-api/geographicAddressManagement/v4''"

text \<open>Line 13, \<open>swaggerDoc?.servers?.[0]?.url\<close>.\<close>

definition first_server_url :: "swagger_doc option \<Rightarrow> string option" where
  "first_server_url d =
     (case d of
        None \<Rightarrow> None
      | Some doc \<Rightarrow>
          (case servers doc of
             None \<Rightarrow> None
           | Some [] \<Rightarrow> None
           | Some (s # _) \<Rightarrow> url s))"

text \<open>
  Lines 13 to 15. The second operand is \<open>swaggerDoc.basePath\<close>, without \<open>?.\<close>: it throws
  when the document is \<open>undefined\<close> or \<open>null\<close>.
\<close>

definition resolve_basePath :: "swagger_doc option \<Rightarrow> js_exn + string" where
  "resolve_basePath d =
     (case nonempty (first_server_url d) of
        Some u \<Rightarrow> Inr u
      | None \<Rightarrow>
          (case d of
             None \<Rightarrow> Inl (TypeError ''basePath'')
           | Some doc \<Rightarrow>
               (case nonempty (basePath doc) of
                  Some b \<Rightarrow> Inr b
                | None \<Rightarrow> Inr default_basePath)))"

text \<open>Lines 17 and 18, on the two variables of the process environment.\<close>

record environment =
  COMPONENT_NAME :: "string option"
  RELEASE_NAME :: "string option"

definition componentName :: "environment \<Rightarrow> string" where
  "componentName env =
     (case nonempty (COMPONENT_NAME env) of Some n \<Rightarrow> n | None \<Rightarrow> ''geographicaddress'')"

definition releaseName :: "environment \<Rightarrow> string" where
  "releaseName env =
     (case nonempty (RELEASE_NAME env) of Some n \<Rightarrow> n | None \<Rightarrow> ''tmf673'')"

text \<open>\<open>swaggerDoc?.info\<close> and \<open>swaggerDoc?.info?.k\<close>.\<close>

definition info_of :: "swagger_doc option \<Rightarrow> json obj option" where
  "info_of d = (case d of None \<Rightarrow> None | Some doc \<Rightarrow> info doc)"

definition info_field :: "swagger_doc option \<Rightarrow> string \<Rightarrow> json option" where
  "info_field d k = (case info_of d of None \<Rightarrow> None | Some i \<Rightarrow> map_of i k)"

text \<open>Lines 25 to 35, the object literal of the self link.\<close>

definition self_literal :: "swagger_doc option \<Rightarrow> environment \<Rightarrow> string \<Rightarrow> entry" where
  "self_literal d env base =
     [(''href'', JStr base),
      (''id'', JStr (releaseName env)),
      (''name'', JStr (componentName env)),
      (''status'', JStr ''running''),
      (''version'', or_default (info_field d ''version'') (JStr ''4.0.1'')),
      (''title'', or_default (info_field d ''title'') (JStr ''Geographic Address Management API'')),
      (''description'', or_default (info_field d ''description'') (JStr [])),
      (''swagger-ui'', JStr (cleanPath (base @ ''/api-docs''))),
      (''openapi'', JStr (cleanPath (base @ ''/openapi'')))]"

text \<open>Lines 40 to 44, the loop over the keys of \<open>info\<close>.\<close>

fun merge_info :: "json obj \<Rightarrow> entry \<Rightarrow> entry" where
  "merge_info [] self = self"
| "merge_info ((infoKey, v) # rest) self =
     merge_info rest (if \<not> truthy_at self infoKey then obj_set infoKey v self else self)"

text \<open>Lines 24 to 45: \<open>linksObject.self\<close> when the loop over the paths starts.\<close>

definition build_self :: "swagger_doc option \<Rightarrow> environment \<Rightarrow> string \<Rightarrow> entry" where
  "build_self d env base =
     (case info_of d of
        None \<Rightarrow> self_literal d env base
      | Some i \<Rightarrow> merge_info i (self_literal d env base))"

text \<open>
  \<open>linksObject[k] = e\<close> (line 53). For the key \<open>__proto__\<close> the assignment runs the setter
  inherited from \<open>Object.prototype\<close>: it replaces the prototype of \<open>linksObject\<close> and
  creates no property.
\<close>

definition links_set :: "string \<Rightarrow> entry \<Rightarrow> links \<Rightarrow> links" where
  "links_set k e ls = (if k = ''__proto__'' then ls else obj_set k e ls)"

text \<open>
  \<open>linksObject[k].tags = ts\<close> (line 62): the entry read back under \<open>k\<close> gets the property.
  Under \<open>__proto__\<close> the object read back is the prototype set by line 53, which is no
  property of \<open>linksObject\<close>.
\<close>

definition links_set_tags :: "string \<Rightarrow> string list \<Rightarrow> links \<Rightarrow> links" where
  "links_set_tags k ts ls =
     (case map_of ls k of
        None \<Rightarrow> ls
      | Some e \<Rightarrow> obj_set k (obj_set ''tags'' (JArr (map JStr ts)) e) ls)"

text \<open>Lines 54 to 57, the object literal of an operation link.\<close>

definition operation_literal ::
  "(string \<Rightarrow> string) \<Rightarrow> string \<Rightarrow> string \<Rightarrow> string \<Rightarrow> operation \<Rightarrow> string \<Rightarrow> entry" where
  "operation_literal uc base pathKey methodKey op oid =
     [(''href'', JStr (stripTrailingSlash base @ pathKey)),
      (''method'', JStr (toUpperCase uc methodKey)),
      (''description'',
         JStr (case nonempty (description op) of
                 Some t \<Rightarrow> t
               | None \<Rightarrow> (case nonempty (summary op) of Some t \<Rightarrow> t | None \<Rightarrow> []))),
      (''operationId'', JStr oid)]"

text \<open>Lines 52 to 64, the body of the inner loop once \<open>operation\<close> is an object.\<close>

definition emit_operation ::
  "(string \<Rightarrow> string) \<Rightarrow> string \<Rightarrow> string \<Rightarrow> string \<Rightarrow> operation \<Rightarrow> links \<Rightarrow> links" where
  "emit_operation uc base pathKey methodKey op ls =
     (case nonempty (operationId op) of
        None \<Rightarrow> ls
      | Some oid \<Rightarrow>
          (let ls' = links_set oid (operation_literal uc base pathKey methodKey op oid) ls
           in case tags op of
                None \<Rightarrow> ls'
              | Some ts \<Rightarrow> if length ts > 0 then links_set_tags oid ts ls' else ls'))"

text \<open>
  Lines 50 to 65, the loop over the methods of one path. Reading \<open>operationId\<close> of a
  \<open>null\<close> operation throws.
\<close>

fun methods_loop :: "(string \<Rightarrow> string) \<Rightarrow> string \<Rightarrow> string \<Rightarrow> path_item \<Rightarrow> links \<Rightarrow> js_exn + links" where
  "methods_loop uc base pathKey [] ls = Inr ls"
| "methods_loop uc base pathKey ((methodKey, slot) # rest) ls =
     (case slot of
        None \<Rightarrow> Inl (TypeError ''operationId'')
      | Some op \<Rightarrow>
          methods_loop uc base pathKey rest (emit_operation uc base pathKey methodKey op ls))"

text \<open>Lines 49 to 66, the loop over the paths.\<close>

fun paths_loop :: "(string \<Rightarrow> string) \<Rightarrow> string \<Rightarrow> path_item obj \<Rightarrow> links \<Rightarrow> js_exn + links" where
  "paths_loop uc base [] ls = Inr ls"
| "paths_loop uc base ((pathKey, item) # rest) ls =
     (case methods_loop uc base pathKey item ls of
        Inl e \<Rightarrow> Inl e
      | Inr ls' \<Rightarrow> paths_loop uc base rest ls')"

text \<open>
  The state around the responder: what \<open>getSwaggerDoc()\<close> does when called (it throws, or
  returns the document it holds, possibly \<open>undefined\<close>), the process environment, the
  reports the logger has received, and the upper-casing of the engine on the strings
  that have a character outside ASCII. A report is the text given to \<open>logger.error\<close> and
  the thrown value whose message and stack were read into its second argument.
\<close>

record log_report =
  text_of :: string
  exn_of :: js_exn

record world =
  swaggerDoc :: "js_exn + swagger_doc option"
  env :: environment
  logged :: "log_report list"
  unicode_upper :: "string \<Rightarrow> string"

text \<open>
  The response object: its status code, its headers, and the argument of
  \<open>JSON.stringify\<close> whose text \<open>res.end\<close> was given (\<open>None\<close> before \<open>res.end\<close>).
\<close>

record response =
  statusCode :: nat
  headers :: "string \<rightharpoonup> string"
  body :: "json option"

text \<open>Lines 12 to 67: \<open>linksObject\<close> when line 70 is reached, or what was thrown before.\<close>

definition build_links :: "world \<Rightarrow> js_exn + links" where
  "build_links w =
     (case swaggerDoc w of
        Inl e \<Rightarrow> Inl e
      | Inr d \<Rightarrow>
          (case resolve_basePath d of
             Inl e \<Rightarrow> Inl e
           | Inr base \<Rightarrow>
               (let linksObject = [(''self'', build_self d (env w) base)]
                in case d of
                     None \<Rightarrow> Inr linksObject
                   | Some doc \<Rightarrow>
                       (case paths doc of
                          None \<Rightarrow> Inr linksObject
                        | Some ps \<Rightarrow> paths_loop (unicode_upper w) base ps linksObject))))"

definition responseJSON :: "links \<Rightarrow> json" where
  "responseJSON ls = JObj [(''_links'', JObj (map (\<lambda>(k, e). (k, JObj e)) ls))]"

definition error_body :: json where
  "error_body =
     JObj [(''error'', JStr ''Internal Server Error''),
           (''message'', JStr ''Unable to generate entrypoint response'')]"

text \<open>
  Lines 79 to 82: the arguments of \<open>logger.error\<close> are evaluated first, and reading
  \<open>error.message\<close> or \<open>error.stack\<close> can throw, inside the handler: the \<open>TypeError\<close> of reading
  \<open>message\<close> of \<open>null\<close> or \<open>undefined\<close>, or what the accessor throws. \<open>Inl\<close> is what is thrown
  then, \<open>Inr\<close> the report the logger is given.
\<close>

definition error_report :: "js_exn \<Rightarrow> js_exn + log_report" where
  "error_report e =
     (case e of
        Nullish \<Rightarrow> Inl (TypeError ''message'')
      | Unreadable x \<Rightarrow> Inl x
      | _ \<Rightarrow> Inr \<lparr>text_of = ''Entrypoint error'', exn_of = e\<rparr>)"

text \<open>
  Lines 10 to 90: the world and the response when control leaves \<open>entrypoint\<close>, and what
  \<open>entrypoint\<close> throws to its caller then, \<open>None\<close> when it returns. What is thrown inside the
  handler is caught by nothing: the logger has not been called and the response has not
  been touched.
\<close>

definition entrypoint :: "world \<Rightarrow> response \<Rightarrow> world \<times> response \<times> js_exn option" where
  "entrypoint w res =
     (case build_links w of
        Inr ls \<Rightarrow>
          (w, res\<lparr>statusCode := 200,
                  headers := (headers res)(''Content-Type'' \<mapsto> ''application/json''),
                  body := Some (responseJSON ls)\<rparr>, None)
      | Inl e \<Rightarrow>
          (case error_report e of
             Inl x \<Rightarrow> (w, res, Some x)
           | Inr r \<Rightarrow>
               (w\<lparr>logged := logged w @ [r]\<rparr>,
                res\<lparr>statusCode := 500,
                    headers := (headers res)(''Content-Type'' \<mapsto> ''application/json''),
                    body := Some error_body\<rparr>, None)))"

section \<open>Vocabulary of the properties\<close>

text \<open>The nine fields written in the object literal of the self link.\<close>

definition explicit_fields :: "string list" where
  "explicit_fields =
     [''href'', ''id'', ''name'', ''status'', ''version'', ''title'', ''description'',
      ''swagger-ui'', ''openapi'']"

text \<open>
  The operation slots of a \<open>paths\<close> object in the order the two loops visit them, each
  with its path key and its method key; those of a document.
\<close>

definition traversal :: "path_item obj \<Rightarrow> (string \<times> string \<times> operation option) list" where
  "traversal ps =
     concat (map (\<lambda>(pathKey, item). map (\<lambda>(methodKey, slot). (pathKey, methodKey, slot)) item) ps)"

definition operations :: "swagger_doc \<Rightarrow> (string \<times> string \<times> operation option) list" where
  "operations doc = (case paths doc of None \<Rightarrow> [] | Some ps \<Rightarrow> traversal ps)"

text \<open>The slots of a sequence; \<open>None\<close> among them is an operation that is \<open>null\<close>.\<close>

definition slots :: "(string \<times> string \<times> operation option) list \<Rightarrow> operation option list" where
  "slots ts = map (\<lambda>(pathKey, methodKey, slot). slot) ts"

text \<open>The \<open>operationId\<close> of a slot when the test of line 52 passes.\<close>

definition slot_id :: "operation option \<Rightarrow> string option" where
  "slot_id slot = (case slot of None \<Rightarrow> None | Some op \<Rightarrow> nonempty (operationId op))"

definition linked_ids :: "(string \<times> string \<times> operation option) list \<Rightarrow> string list" where
  "linked_ids ts =
     concat (map (\<lambda>(pathKey, methodKey, slot).
                    case slot_id slot of None \<Rightarrow> [] | Some oid \<Rightarrow> [oid]) ts)"

text \<open>The links after the loop body has run on each slot of a sequence without \<open>null\<close>.\<close>

fun emit_seq ::
  "(string \<Rightarrow> string) \<Rightarrow> string \<Rightarrow> (string \<times> string \<times> operation option) list \<Rightarrow> links \<Rightarrow> links" where
  "emit_seq uc base [] ls = ls"
| "emit_seq uc base ((pathKey, methodKey, slot) # rest) ls =
     emit_seq uc base rest
       (case slot of None \<Rightarrow> ls | Some op \<Rightarrow> emit_operation uc base pathKey methodKey op ls)"

text \<open>The \<open>tags\<close> field of an operation link: there when the operation has at least one tag.\<close>

definition link_tags :: "operation \<Rightarrow> entry" where
  "link_tags op =
     (case tags op of
        None \<Rightarrow> []
      | Some ts \<Rightarrow> if ts = [] then [] else [(''tags'', JArr (map JStr ts))])"

text \<open>Property order of a list of keys without repetition: array indices first, ascending.\<close>

definition key_before :: "string \<Rightarrow> string \<Rightarrow> bool" where
  "key_before k k' = (\<not> is_array_index k' \<or> (is_array_index k \<and> index_val k < index_val k'))"

definition property_order :: "string list \<Rightarrow> bool" where
  "property_order ks = (distinct ks \<and> sorted_wrt key_before ks)"

text \<open>A string ends in two separators.\<close>

definition ends_double :: "string \<Rightarrow> bool" where
  "ends_double s = (length s \<ge> 2 \<and> last s = CHR ''/'' \<and> last (butlast s) = CHR ''/'')"


section \<open>The responder on objects with identity\<close>

text \<open>
  The same statements, on a store of objects: an object is at an address, a property
  holds plain data or the address of an object, and every assignment of the source is
  a write into the object its left-hand side denotes at that moment. The store holds
  the objects of the program other than the response object and the logger, which are
  state of their own; objects are never freed, and a new object takes the next address,
  the length of the store.
  A value copied from the API description is carried as data: the responder stores it
  and never reads inside it.
\<close>

type_synonym addr = nat

datatype hval = Data json | Ref addr

record jsobj =
  props :: "hval obj"
  proto :: "addr option"

type_synonym store = "jsobj list"

text \<open>The same keys in the same order, each value mapped.\<close>

definition map_vals :: "('a \<Rightarrow> 'b) \<Rightarrow> 'a obj \<Rightarrow> 'b obj" where
  "map_vals g ps = map (\<lambda>(k, x). (k, g x)) ps"

text \<open>An object literal whose properties are data; \<open>None\<close> as prototype is \<open>Object.prototype\<close>.\<close>

definition data_props :: "json obj \<Rightarrow> hval obj" where
  "data_props ps = map_vals Data ps"

definition new_object :: "hval obj \<Rightarrow> store \<Rightarrow> store" where
  "new_object ps h = h @ [\<lparr>props = ps, proto = None\<rparr>]"

text \<open>\<open>o[k] = v\<close> where \<open>o\<close> is the object at \<open>a\<close> and \<open>k\<close> is not \<open>__proto__\<close>.\<close>

definition write_prop :: "addr \<Rightarrow> string \<Rightarrow> hval \<Rightarrow> store \<Rightarrow> store" where
  "write_prop a k v h = h[a := (h ! a)\<lparr>props := obj_set k v (props (h ! a))\<rparr>]"

text \<open>\<open>o[k] = e\<close> where \<open>e\<close> is an object: under \<open>__proto__\<close> the inherited setter runs.\<close>

definition assign_object :: "addr \<Rightarrow> string \<Rightarrow> addr \<Rightarrow> store \<Rightarrow> store" where
  "assign_object a k e h =
     (if k = ''__proto__'' then h[a := (h ! a)\<lparr>proto := Some e\<rparr>]
      else write_prop a k (Ref e) h)"

text \<open>
  The object \<open>o[k]\<close> denotes, for the object \<open>o\<close> at \<open>a\<close>: the one an own property refers to,
  or under \<open>__proto__\<close> the prototype that was set. \<open>None\<close> when \<open>o[k]\<close> is no object of the
  store; the responder reads \<open>o[k]\<close> only for a key it has assigned an object to.
\<close>

definition read_object :: "store \<Rightarrow> addr \<Rightarrow> string \<Rightarrow> addr option" where
  "read_object h a k =
     (case map_of (props (h ! a)) k of
        Some (Ref t) \<Rightarrow> Some t
      | Some (Data v) \<Rightarrow> None
      | None \<Rightarrow> if k = ''__proto__'' then proto (h ! a) else None)"

text \<open>\<open>!o[k]\<close> is false exactly when this holds, for the object \<open>o\<close> at \<open>a\<close>.\<close>

definition truthy_in :: "store \<Rightarrow> addr \<Rightarrow> string \<Rightarrow> bool" where
  "truthy_in h a k =
     (case map_of (props (h ! a)) k of
        Some (Data v) \<Rightarrow> truthy v
      | Some (Ref t) \<Rightarrow> True
      | None \<Rightarrow> k \<in> set object_prototype_keys)"

text \<open>
  Lines 40 to 44 with \<open>linksObject\<close> at \<open>l\<close>. Each round reads \<open>linksObject.self\<close> anew; were
  it no object, reading its property would throw.
\<close>

fun merge_info_st :: "json obj \<Rightarrow> addr \<Rightarrow> store \<Rightarrow> js_exn option \<times> store" where
  "merge_info_st [] l h = (None, h)"
| "merge_info_st ((infoKey, v) # rest) l h =
     (case read_object h l ''self'' of
        None \<Rightarrow> (Some (TypeError infoKey), h)
      | Some s \<Rightarrow>
          merge_info_st rest l
            (if \<not> truthy_in h s infoKey then write_prop s infoKey (Data v) h else h))"

text \<open>Lines 60 to 63 with \<open>linksObject\<close> at \<open>l\<close>.\<close>

definition add_tags_st :: "operation \<Rightarrow> string \<Rightarrow> addr \<Rightarrow> store \<Rightarrow> js_exn option \<times> store" where
  "add_tags_st op oid l h =
     (case tags op of
        None \<Rightarrow> (None, h)
      | Some ts \<Rightarrow>
          if length ts > 0
          then (case read_object h l oid of
                  None \<Rightarrow> (Some (TypeError ''tags''), h)
                | Some t \<Rightarrow> (None, write_prop t ''tags'' (Data (JArr (map JStr ts))) h))
          else (None, h))"

text \<open>Lines 52 to 64 with \<open>linksObject\<close> at \<open>l\<close>, once \<open>operation\<close> is an object.\<close>

definition emit_operation_st ::
  "(string \<Rightarrow> string) \<Rightarrow> string \<Rightarrow> string \<Rightarrow> string \<Rightarrow> operation \<Rightarrow> addr \<Rightarrow> store \<Rightarrow> js_exn option \<times> store" where
  "emit_operation_st uc base pathKey methodKey op l h =
     (case nonempty (operationId op) of
        None \<Rightarrow> (None, h)
      | Some oid \<Rightarrow>
          add_tags_st op oid l
            (assign_object l oid (length h)
               (new_object (data_props (operation_literal uc base pathKey methodKey op oid)) h)))"

fun methods_loop_st ::
  "(string \<Rightarrow> string) \<Rightarrow> string \<Rightarrow> string \<Rightarrow> path_item \<Rightarrow> addr \<Rightarrow> store \<Rightarrow> js_exn option \<times> store" where
  "methods_loop_st uc base pathKey [] l h = (None, h)"
| "methods_loop_st uc base pathKey ((methodKey, slot) # rest) l h =
     (case slot of
        None \<Rightarrow> (Some (TypeError ''operationId''), h)
      | Some op \<Rightarrow>
          (case emit_operation_st uc base pathKey methodKey op l h of
             (Some e, h') \<Rightarrow> (Some e, h')
           | (None, h') \<Rightarrow> methods_loop_st uc base pathKey rest l h'))"

fun paths_loop_st ::
  "(string \<Rightarrow> string) \<Rightarrow> string \<Rightarrow> path_item obj \<Rightarrow> addr \<Rightarrow> store \<Rightarrow> js_exn option \<times> store" where
  "paths_loop_st uc base [] l h = (None, h)"
| "paths_loop_st uc base ((pathKey, item) # rest) l h =
     (case methods_loop_st uc base pathKey item l h of
        (Some e, h') \<Rightarrow> (Some e, h')
      | (None, h') \<Rightarrow> paths_loop_st uc base rest l h')"

text \<open>
  Lines 24 to 36: the object literal of the self link, then \<open>linksObject\<close>, which takes the
  address \<open>Suc (length h)\<close>.
\<close>

definition new_links :: "swagger_doc option \<Rightarrow> environment \<Rightarrow> string \<Rightarrow> store \<Rightarrow> store" where
  "new_links d ev base h =
     new_object [(''self'', Ref (length h))] (new_object (data_props (self_literal d ev base)) h)"

text \<open>Lines 39 to 45, and lines 48 to 67, with \<open>linksObject\<close> at \<open>l\<close>.\<close>

definition info_stage :: "swagger_doc option \<Rightarrow> addr \<Rightarrow> store \<Rightarrow> js_exn option \<times> store" where
  "info_stage d l h = (case info_of d of None \<Rightarrow> (None, h) | Some i \<Rightarrow> merge_info_st i l h)"

definition paths_stage ::
  "(string \<Rightarrow> string) \<Rightarrow> swagger_doc option \<Rightarrow> string \<Rightarrow> addr \<Rightarrow> store \<Rightarrow> js_exn option \<times> store" where
  "paths_stage uc d base l h =
     (case d of
        None \<Rightarrow> (None, h)
      | Some doc \<Rightarrow>
          (case paths doc of None \<Rightarrow> (None, h) | Some ps \<Rightarrow> paths_loop_st uc base ps l h))"

text \<open>
  Lines 12 to 67: the address of \<open>linksObject\<close> when line 70 is reached, or what was thrown
  before, and the store then.
\<close>

definition build_links_st :: "world \<Rightarrow> store \<Rightarrow> (js_exn + addr) \<times> store" where
  "build_links_st w h =
     (case swaggerDoc w of
        Inl e \<Rightarrow> (Inl e, h)
      | Inr d \<Rightarrow>
          (case resolve_basePath d of
             Inl e \<Rightarrow> (Inl e, h)
           | Inr base \<Rightarrow>
               (case info_stage d (Suc (length h)) (new_links d (env w) base h) of
                  (Some e, h') \<Rightarrow> (Inl e, h')
                | (None, h') \<Rightarrow>
                    (case paths_stage (unicode_upper w) d base (Suc (length h)) h' of
                       (Some e, h'') \<Rightarrow> (Inl e, h'')
                     | (None, h'') \<Rightarrow> (Inr (Suc (length h)), h'')))))"

text \<open>What \<open>JSON.stringify\<close> reads of the object at an address: an entry, the links.\<close>

definition data_of :: "hval \<Rightarrow> json" where
  "data_of x = (case x of Data v \<Rightarrow> v | Ref t \<Rightarrow> JObj [])"

definition entry_at :: "store \<Rightarrow> addr \<Rightarrow> entry" where
  "entry_at h a = map_vals data_of (props (h ! a))"

definition entry_of :: "store \<Rightarrow> hval \<Rightarrow> entry" where
  "entry_of h x = (case x of Ref e \<Rightarrow> entry_at h e | Data v \<Rightarrow> [])"

definition links_at :: "store \<Rightarrow> addr \<Rightarrow> links" where
  "links_at h l = map_vals (entry_of h) (props (h ! l))"

text \<open>Lines 10 to 90 on the store.\<close>

definition entrypoint_st ::
  "world \<Rightarrow> response \<Rightarrow> store \<Rightarrow> (world \<times> response \<times> js_exn option) \<times> store" where
  "entrypoint_st w res h =
     (case build_links_st w h of
        (Inr l, h') \<Rightarrow>
          ((w, res\<lparr>statusCode := 200,
                   headers := (headers res)(''Content-Type'' \<mapsto> ''application/json''),
                   body := Some (responseJSON (links_at h' l))\<rparr>, None), h')
      | (Inl e, h') \<Rightarrow>
          (case error_report e of
             Inl x \<Rightarrow> ((w, res, Some x), h')
           | Inr r \<Rightarrow>
               ((w\<lparr>logged := logged w @ [r]\<rparr>,
                 res\<lparr>statusCode := 500,
                     headers := (headers res)(''Content-Type'' \<mapsto> ''application/json''),
                     body := Some error_body\<rparr>, None), h')))"

text \<open>
  Every object that \<open>linksObject[k]\<close> can denote, for \<open>linksObject\<close> at \<open>l\<close>, has an address
  from \<open>n\<close> on, and so has \<open>linksObject\<close>.
\<close>

definition fresh_links :: "nat \<Rightarrow> addr \<Rightarrow> store \<Rightarrow> bool" where
  "fresh_links n l h =
     (n \<le> l \<and> l < length h \<and> (\<forall>k t. read_object h l k = Some t \<longrightarrow> n \<le> t))"

text \<open>
  The shape of \<open>linksObject\<close> at \<open>l\<close>: its keys are distinct, none is \<open>__proto__\<close>, and each
  property refers to another object of the store.
\<close>

definition links_ok :: "store \<Rightarrow> addr \<Rightarrow> bool" where
  "links_ok h l =
     (l < length h \<and> distinct (map fst (props (h ! l)))
      \<and> ''__proto__'' \<notin> fst ` set (props (h ! l))
      \<and> (\<forall>x \<in> snd ` set (props (h ! l)). \<exists>e. x = Ref e \<and> e < length h \<and> e \<noteq> l))"

section \<open>Ordinary objects: lookup, keys, order\<close>

lemma map_of_insert_index:
  "map_of (insert_index k v ps) k' = (if k' = k then Some v else map_of ps k')"
  by (induction ps) auto

lemma map_of_replace_value:
  "map_of (replace_value k v ps) k' =
   (if k' = k \<and> map_of ps k \<noteq> None then Some v else map_of ps k')"
  by (induction ps) auto

lemma map_of_obj_set: "map_of (obj_set k v ps) k' = (if k' = k then Some v else map_of ps k')"
  by (auto simp: obj_set_def map_of_insert_index map_of_replace_value map_add_def
           split: option.split)

lemma keys_replace_value: "map fst (replace_value k v ps) = map fst ps"
  by (induction ps) auto

lemma keys_insert_index: "fst ` set (insert_index k v ps) = insert k (fst ` set ps)"
proof -
  have "dom (map_of (insert_index k v ps)) = insert k (dom (map_of ps))"
    by (auto simp: map_of_insert_index dom_def)
  then show ?thesis
    by (simp add: dom_map_of_conv_image_fst)
qed

lemma keys_obj_set: "fst ` set (obj_set k v ps) = insert k (fst ` set ps)"
proof -
  have "dom (map_of (obj_set k v ps)) = insert k (dom (map_of ps))"
    by (auto simp: map_of_obj_set dom_def)
  then show ?thesis
    by (simp add: dom_map_of_conv_image_fst)
qed

lemma distinct_insert_index:
  "k \<notin> fst ` set ps \<Longrightarrow> distinct (map fst ps) \<Longrightarrow> distinct (map fst (insert_index k v ps))"
  by (induction ps) (auto simp: keys_insert_index)

lemma distinct_obj_set:
  assumes "distinct (map fst ps)"
  shows "distinct (map fst (obj_set k v ps))"
proof (cases "map_of ps k")
  case None
  then have "k \<notin> fst ` set ps"
    by (simp add: map_of_eq_None_iff)
  with None assms show ?thesis
    by (simp add: obj_set_def distinct_insert_index)
next
  case (Some a)
  with assms show ?thesis
    by (simp add: obj_set_def keys_replace_value)
qed

lemma cleanPath_Cons: "\<exists>r. cleanPath (c # ds) = c # r"
  by (cases ds) auto

lemma has_double_cleanPath: "has_double (cleanPath s) \<longleftrightarrow> has_triple s"
proof (induction s rule: cleanPath.induct)
  case (1 a b cs)
  show ?case
  proof (cases "a = CHR ''/'' \<and> b = CHR ''/''")
    case True
    show ?thesis
    proof (cases cs)
      case Nil
      with True show ?thesis by simp
    next
      case (Cons c ds)
      obtain r where r: "cleanPath cs = c # r"
        using cleanPath_Cons[of c ds] Cons by auto
      have "has_double (CHR ''/'' # cleanPath cs) \<longleftrightarrow> c = CHR ''/'' \<or> has_double (cleanPath cs)"
        by (simp add: r)
      moreover have "has_triple (a # b # cs) \<longleftrightarrow> c = CHR ''/'' \<or> has_triple cs"
        using True Cons by (cases ds) auto
      ultimately show ?thesis using 1 True by simp
    qed
  next
    case False
    obtain r where r: "cleanPath (b # cs) = b # r"
      using cleanPath_Cons[of b cs] by auto
    have "has_double (a # cleanPath (b # cs)) \<longleftrightarrow> has_double (cleanPath (b # cs))"
      using False by (auto simp: r)
    moreover have "has_triple (a # b # cs) \<longleftrightarrow> has_triple (b # cs)"
      using False by (cases cs) auto
    moreover have "cleanPath (a # b # cs) = a # cleanPath (b # cs)"
      using False by auto
    ultimately show ?thesis using 1(2)[OF False] by (simp del: cleanPath.simps has_double.simps has_triple.simps)
  qed
qed simp_all


section \<open>The two loops\<close>

lemma emit_seq_append: "emit_seq uc base (xs @ ys) ls = emit_seq uc base ys (emit_seq uc base xs ls)"
  by (induction xs arbitrary: ls) auto

lemma slots_simps:
  "slots [] = []" "slots ((pk, mk, slot) # ts) = slot # slots ts"
  "slots (xs @ ys) = slots xs @ slots ys"
  by (simp_all add: slots_def)

lemma methods_loop_eq:
  "methods_loop uc base pk item ls =
     (if None \<in> set (map snd item) then Inl (TypeError ''operationId'')
      else Inr (emit_seq uc base (map (\<lambda>(mk, slot). (pk, mk, slot)) item) ls))"
proof (induction item arbitrary: ls)
  case Nil
  show ?case by simp
next
  case (Cons p item)
  obtain mk slot where p: "p = (mk, slot)" by (cases p)
  show ?case by (cases slot) (auto simp add: p Cons)
qed

lemma traversal_Cons:
  "traversal ((pk, item) # ps) = map (\<lambda>(mk, slot). (pk, mk, slot)) item @ traversal ps"
  by (simp add: traversal_def)

lemma slots_item: "slots (map (\<lambda>(mk, slot). (pk, mk, slot)) item) = map snd item"
  by (induction item) (auto simp: slots_def)

lemma paths_loop_eq:
  "paths_loop uc base ps ls =
     (if None \<in> set (slots (traversal ps)) then Inl (TypeError ''operationId'')
      else Inr (emit_seq uc base (traversal ps) ls))"
proof (induction ps arbitrary: ls)
  case Nil
  show ?case by (simp add: traversal_def slots_def)
next
  case (Cons p ps)
  obtain pk item where p: "p = (pk, item)" by (cases p)
  show ?case
    unfolding p traversal_Cons slots_simps slots_item
    by (simp add: methods_loop_eq Cons emit_seq_append del: set_map)
qed

lemma tags_not_index: "\<not> is_array_index ''tags''"
  by (simp add: is_array_index_def digit_val_def)

lemma obj_set_tags_literal:
  "obj_set ''tags'' v (operation_literal uc base pk mk op oid) =
   operation_literal uc base pk mk op oid @ [(''tags'', v)]"
  by (simp add: obj_set_def tags_not_index operation_literal_def)

lemma emit_operation_lookup:
  assumes "k \<noteq> ''__proto__''"
  shows "map_of (emit_operation uc base pk mk op ls) k =
         (if nonempty (operationId op) = Some k
          then Some (operation_literal uc base pk mk op k @ link_tags op)
          else map_of ls k)"
proof (cases "nonempty (operationId op)")
  case None
  then show ?thesis by (simp add: emit_operation_def)
next
  case (Some oid)
  show ?thesis
  proof (cases "oid = ''__proto__''")
    case True
    with Some assms show ?thesis
      by (auto simp: emit_operation_def links_set_def links_set_tags_def map_of_obj_set
               split: option.splits)
  next
    case False
    with Some assms show ?thesis
      by (auto simp: emit_operation_def links_set_def links_set_tags_def map_of_obj_set
                     link_tags_def obj_set_tags_literal Let_def
               split: option.splits)
  qed
qed

lemma emit_operation_keys:
  "fst ` set (emit_operation uc base pk mk op ls) =
   (case nonempty (operationId op) of
      None \<Rightarrow> fst ` set ls
    | Some oid \<Rightarrow> if oid = ''__proto__'' then fst ` set ls else insert oid (fst ` set ls))"
proof -
  have *: "map_of ls k = Some e \<Longrightarrow> insert k (fst ` set ls) = fst ` set ls" for k e and ls :: links
    by (metis insert_absorb map_of_eq_None_iff option.distinct(1))
  show ?thesis
    by (auto simp: emit_operation_def links_set_def links_set_tags_def keys_obj_set Let_def
                   map_of_obj_set * 
             split: option.splits)
qed

lemma emit_operation_distinct:
  "distinct (map fst ls) \<Longrightarrow> distinct (map fst (emit_operation uc base pk mk op ls))"
  by (auto simp: emit_operation_def links_set_def links_set_tags_def distinct_obj_set Let_def
           split: option.splits)

lemma linked_ids_simps:
  "linked_ids [] = []"
  "linked_ids ((pk, mk, slot) # ts) =
     (case slot_id slot of None \<Rightarrow> [] | Some oid \<Rightarrow> [oid]) @ linked_ids ts"
  "linked_ids (xs @ ys) = linked_ids xs @ linked_ids ys"
  by (simp_all add: linked_ids_def)

lemma emit_seq_other:
  "k \<noteq> ''__proto__'' \<Longrightarrow> k \<notin> set (linked_ids ts) \<Longrightarrow>
   map_of (emit_seq uc base ts ls) k = map_of ls k"
proof (induction ts arbitrary: ls)
  case Nil
  show ?case by simp
next
  case (Cons t ts)
  obtain pk mk slot where t: "t = (pk, mk, slot)" by (cases t)
  from Cons.prems have 1: "k \<notin> set (linked_ids ts)" and 2: "slot_id slot \<noteq> Some k"
    by (auto simp: t linked_ids_simps split: option.splits)
  show ?case
  proof (cases slot)
    case None
    with Cons 1 show ?thesis by (simp add: t)
  next
    case (Some op)
    with 2 have "nonempty (operationId op) \<noteq> Some k" by (simp add: slot_id_def)
    with Some Cons.IH[OF Cons.prems(1) 1] Cons.prems(1) show ?thesis
      by (simp add: t emit_operation_lookup)
  qed
qed

lemma emit_seq_last:
  assumes "nonempty (operationId op) = Some oid" "oid \<noteq> ''__proto__''"
    and "oid \<notin> set (linked_ids post)"
  shows "map_of (emit_seq uc base (pre @ (pk, mk, Some op) # post) ls) oid =
         Some (operation_literal uc base pk mk op oid @ link_tags op)"
  using assms by (simp add: emit_seq_append emit_seq_other emit_operation_lookup)

lemma emit_seq_keys:
  "fst ` set (emit_seq uc base ts ls) = fst ` set ls \<union> (set (linked_ids ts) - {''__proto__''})"
proof (induction ts arbitrary: ls)
  case Nil
  show ?case by (simp add: linked_ids_simps)
next
  case (Cons t ts)
  obtain pk mk slot where t: "t = (pk, mk, slot)" by (cases t)
  show ?case
    by (cases slot)
       (auto simp: t Cons emit_operation_keys linked_ids_simps slot_id_def split: option.splits)
qed

lemma emit_seq_distinct:
  "distinct (map fst ls) \<Longrightarrow> distinct (map fst (emit_seq uc base ts ls))"
proof (induction ts arbitrary: ls)
  case Nil
  then show ?case by simp
next
  case (Cons t ts)
  obtain pk mk slot where t: "t = (pk, mk, slot)" by (cases t)
  show ?case
    by (cases slot) (simp_all add: t Cons emit_operation_distinct)
qed

lemma resolve_basePath_Some: "\<exists>base. resolve_basePath (Some doc) = Inr base \<and> base \<noteq> []"
  by (auto simp: resolve_basePath_def nonempty_def default_basePath_def split: option.splits if_splits)

lemma build_links_thrown: "swaggerDoc w = Inl e \<Longrightarrow> build_links w = Inl e"
  by (simp add: build_links_def)

lemma build_links_undefined: "swaggerDoc w = Inr None \<Longrightarrow> build_links w = Inl (TypeError ''basePath'')"
  by (simp add: build_links_def resolve_basePath_def first_server_url_def nonempty_def)

lemma build_links_document:
  assumes "swaggerDoc w = Inr (Some doc)" "resolve_basePath (Some doc) = Inr base"
  shows "build_links w =
         (if None \<in> set (slots (operations doc)) then Inl (TypeError ''operationId'')
          else Inr (emit_seq (unicode_upper w) base (operations doc) [(''self'', build_self (Some doc) (env w) base)]))"
  using assms
  by (simp add: build_links_def operations_def paths_loop_eq slots_def split: option.splits)


section \<open>The loop over \<open>info\<close>\<close>

lemma truthy_at_obj_set_other:
  "k' \<noteq> k \<Longrightarrow> truthy_at (obj_set k' v self) k = truthy_at self k"
  by (simp add: truthy_at_def map_of_obj_set)

lemma merge_info_truthy:
  "truthy_at self k \<Longrightarrow> map_of (merge_info i self) k = map_of self k"
proof (induction i arbitrary: self)
  case Nil
  show ?case by simp
next
  case (Cons p i)
  obtain k' v where p: "p = (k', v)" by (cases p)
  show ?case
  proof (cases "k' = k")
    case True
    with Cons show ?thesis by (simp add: p)
  next
    case False
    with Cons show ?thesis
      by (simp add: p truthy_at_obj_set_other map_of_obj_set)
  qed
qed

lemma merge_info_lookup:
  assumes "distinct (map fst i)"
  shows "map_of (merge_info i self) k =
         (if truthy_at self k then map_of self k
          else case map_of i k of Some v \<Rightarrow> Some v | None \<Rightarrow> map_of self k)"
  using assms
proof (induction i arbitrary: self)
  case Nil
  show ?case by simp
next
  case (Cons p i)
  obtain k' v where p: "p = (k', v)" by (cases p)
  from Cons.prems have d: "distinct (map fst i)" and n: "k' \<notin> fst ` set i"
    by (simp_all add: p)
  from n have none: "map_of i k' = None"
    by (simp add: map_of_eq_None_iff)
  show ?case
  proof (cases "k' = k")
    case True
    show ?thesis
    proof (cases "truthy_at self k")
      case t: True
      then show ?thesis using True by (simp add: p merge_info_truthy)
    next
      case f: False
      show ?thesis
        using True f none Cons.IH[OF d, of "obj_set k v self"]
        by (simp add: p map_of_obj_set truthy_at_def)
    qed
  next
    case False
    then show ?thesis
      using Cons.IH[OF d]
      by (simp add: p truthy_at_obj_set_other map_of_obj_set split: option.splits)
  qed
qed

lemma merge_info_keeps:
  "k \<in> fst ` set self \<Longrightarrow> k \<in> fst ` set (merge_info i self)"
proof (induction i arbitrary: self)
  case Nil
  then show ?case by simp
next
  case (Cons p i)
  obtain k' v where p: "p = (k', v)" by (cases p)
  from Cons show ?case
    by (simp add: p keys_obj_set)
qed

lemma replace_value_absent: "k \<notin> fst ` set ps \<Longrightarrow> replace_value k v ps = ps"
  by (induction ps) auto

lemma replace_value_append:
  "replace_value k v (xs @ ys) = replace_value k v xs @ replace_value k v ys"
  by (induction xs) auto

lemma insert_index_shape:
  assumes "\<forall>a \<in> fst ` set A. is_array_index a \<and> index_val a < index_val k"
    and "R \<noteq> []" "\<not> is_array_index (fst (hd R))"
  shows "insert_index k v (A @ R) = A @ (k, v) # R"
  using assms
proof (induction A)
  case Nil
  then show ?case by (cases R) auto
next
  case (Cons a A)
  then show ?case by (cases a) auto
qed

lemma map_of_absent: "k \<notin> fst ` set ps \<Longrightarrow> map_of ps k = None"
  by (simp add: map_of_eq_None_iff)

lemma index_first_partition:
  "sorted_wrt key_before ks \<Longrightarrow>
   filter is_array_index ks @ filter (\<lambda>k. \<not> is_array_index k) ks = ks"
proof (induction ks)
  case Nil
  show ?case by simp
next
  case (Cons k ks)
  show ?case
  proof (cases "is_array_index k")
    case True
    with Cons show ?thesis by simp
  next
    case False
    with Cons.prems have "\<forall>k' \<in> set ks. \<not> is_array_index k'"
      by (auto simp: key_before_def)
    then have "filter is_array_index ks = []" "filter (\<lambda>k. \<not> is_array_index k) ks = ks"
      by (simp_all add: filter_empty_conv filter_id_conv)
    with False show ?thesis by simp
  qed
qed

lemma merge_info_shape:
  fixes E :: "string list" and i :: "json obj"
  assumes E: "E \<noteq> []" "\<forall>e \<in> set E. \<not> is_array_index e"
  shows "distinct (map fst i) \<Longrightarrow> sorted_wrt key_before (map fst i) \<Longrightarrow>
     map fst B = E \<Longrightarrow>
     \<forall>a \<in> fst ` set A. is_array_index a \<and>
        (\<forall>k \<in> fst ` set i. is_array_index k \<longrightarrow> index_val a < index_val k) \<Longrightarrow>
     fst ` set i \<inter> (fst ` set A \<union> fst ` set S) = {} \<Longrightarrow>
     \<exists>A' B' S'. merge_info i (A @ B @ S) = (A @ A') @ B' @ (S @ S') \<and> map fst B' = E
        \<and> map fst A' = filter is_array_index
             (filter (\<lambda>k. k \<notin> set E \<and> k \<notin> set object_prototype_keys) (map fst i))
        \<and> map fst S' = filter (\<lambda>k. \<not> is_array_index k)
             (filter (\<lambda>k. k \<notin> set E \<and> k \<notin> set object_prototype_keys) (map fst i))"
proof (induction i arbitrary: A B S)
  case Nil
  show ?case
    by (rule exI[of _ "[]"], rule exI[of _ B], rule exI[of _ "[]"]) (simp add: Nil)
next
  case (Cons p i)
  obtain k v where p: "p = (k, v)" by (cases p)
  let ?self = "A @ B @ S"
  from Cons.prems(1) have di: "distinct (map fst i)" and ki: "k \<notin> fst ` set i"
    by (simp_all add: p)
  from Cons.prems(2) have si: "sorted_wrt key_before (map fst i)"
    and kb: "\<forall>k' \<in> fst ` set i. key_before k k'"
    by (simp_all add: p)
  from Cons.prems(5) have kA: "k \<notin> fst ` set A" and kS: "k \<notin> fst ` set S"
    and disj: "fst ` set i \<inter> (fst ` set A \<union> fst ` set S) = {}"
    by (auto simp: p)
  from Cons.prems(4) have Ai: "\<forall>a \<in> fst ` set A. is_array_index a \<and>
        (\<forall>k \<in> fst ` set i. is_array_index k \<longrightarrow> index_val a < index_val k)"
    and Ak: "is_array_index k \<Longrightarrow> \<forall>a \<in> fst ` set A. is_array_index a \<and> index_val a < index_val k"
    by (auto simp: p)
  have keysB: "fst ` set B = set E"
    using Cons.prems(3) by (metis set_map)
  have own: "map_of ?self k = (if k \<in> set E then map_of B k else None)"
    using kA kS keysB by (auto simp: map_add_def map_of_absent split: option.splits)
  have ownE: "k \<in> set E \<Longrightarrow> map_of B k \<noteq> None"
    using keysB by (metis map_of_eq_None_iff)
  consider (keep) "truthy_at ?self k"
    | (over) "\<not> truthy_at ?self k" "k \<in> set E"
    | (new) "\<not> truthy_at ?self k" "k \<notin> set E"
    by blast
  then show ?case
  proof cases
    case keep
    have "k \<in> set E \<or> k \<in> set object_prototype_keys"
      using keep own by (auto simp: truthy_at_def split: if_splits)
    then have f: "filter (\<lambda>k. k \<notin> set E \<and> k \<notin> set object_prototype_keys) (map fst (p # i))
          = filter (\<lambda>k. k \<notin> set E \<and> k \<notin> set object_prototype_keys) (map fst i)"
      by (auto simp: p)
    have m: "merge_info (p # i) ?self = merge_info i ?self"
      using keep by (simp add: p)
    show ?thesis
      unfolding f m using Cons.IH[OF di si Cons.prems(3) Ai disj] .
  next
    case over
    have f: "filter (\<lambda>k. k \<notin> set E \<and> k \<notin> set object_prototype_keys) (map fst (p # i))
          = filter (\<lambda>k. k \<notin> set E \<and> k \<notin> set object_prototype_keys) (map fst i)"
      using over(2) by (simp add: p)
    have "obj_set k v ?self = replace_value k v ?self"
      using own ownE over(2) by (simp add: obj_set_def)
    also have "\<dots> = A @ replace_value k v B @ S"
      using kA kS by (simp add: replace_value_append replace_value_absent)
    finally have m: "merge_info (p # i) ?self = merge_info i (A @ replace_value k v B @ S)"
      using over(1) by (simp add: p)
    have B': "map fst (replace_value k v B) = E"
      using Cons.prems(3) by (simp add: keys_replace_value)
    show ?thesis
      unfolding f m using Cons.IH[OF di si B' Ai disj] .
  next
    case new
    have notown: "map_of ?self k = None"
      using own new(2) by simp
    have np: "k \<notin> set object_prototype_keys"
      using new(1) unfolding truthy_at_def notown by simp
    show ?thesis
    proof (cases "is_array_index k")
      case True
      have hdB: "B @ S \<noteq> []" "\<not> is_array_index (fst (hd (B @ S)))"
      proof -
        from E(1) Cons.prems(3) have "B \<noteq> []" by auto
        then show "B @ S \<noteq> []" by simp
        from \<open>B \<noteq> []\<close> have "fst (hd (B @ S)) = hd (map fst B)"
          by (simp add: hd_map)
        also have "\<dots> \<in> set E"
          using Cons.prems(3) E(1) by (metis hd_in_set)
        finally show "\<not> is_array_index (fst (hd (B @ S)))"
          using E(2) by blast
      qed
      have "obj_set k v ?self = insert_index k v (A @ (B @ S))"
        using notown True by (simp add: obj_set_def)
      also have "\<dots> = A @ (k, v) # (B @ S)"
        by (rule insert_index_shape[OF Ak[OF True] hdB])
      finally have m: "merge_info (p # i) ?self = merge_info i ((A @ [(k, v)]) @ B @ S)"
        using new(1) by (simp add: p)
      have A2: "\<forall>a \<in> fst ` set (A @ [(k, v)]). is_array_index a \<and>
            (\<forall>k \<in> fst ` set i. is_array_index k \<longrightarrow> index_val a < index_val k)"
        using Ai True kb by (auto simp: key_before_def)
      have disj2: "fst ` set i \<inter> (fst ` set (A @ [(k, v)]) \<union> fst ` set S) = {}"
        using disj ki by auto
      from Cons.IH[OF di si Cons.prems(3) A2 disj2]
      obtain A' B' S' where
        1: "merge_info i ((A @ [(k, v)]) @ B @ S) = ((A @ [(k, v)]) @ A') @ B' @ (S @ S')"
        and 2: "map fst B' = E"
        and 3: "map fst A' = filter is_array_index
             (filter (\<lambda>k. k \<notin> set E \<and> k \<notin> set object_prototype_keys) (map fst i))"
        and 4: "map fst S' = filter (\<lambda>k. \<not> is_array_index k)
             (filter (\<lambda>k. k \<notin> set E \<and> k \<notin> set object_prototype_keys) (map fst i))"
        by blast
      show ?thesis
        apply (rule exI[of _ "(k, v) # A'"], rule exI[of _ B'], rule exI[of _ S'])
        using 1 2 3 4 m True new(2) np by (simp add: p)
    next
      case False
      have "obj_set k v ?self = ?self @ [(k, v)]"
        using notown False by (simp add: obj_set_def)
      then have m: "merge_info (p # i) ?self = merge_info i (A @ B @ (S @ [(k, v)]))"
        using new(1) by (simp add: p)
      have disj2: "fst ` set i \<inter> (fst ` set A \<union> fst ` set (S @ [(k, v)])) = {}"
        using disj ki by auto
      from Cons.IH[OF di si Cons.prems(3) Ai disj2]
      obtain A' B' S' where
        1: "merge_info i (A @ B @ (S @ [(k, v)])) = (A @ A') @ B' @ ((S @ [(k, v)]) @ S')"
        and 2: "map fst B' = E"
        and 3: "map fst A' = filter is_array_index
             (filter (\<lambda>k. k \<notin> set E \<and> k \<notin> set object_prototype_keys) (map fst i))"
        and 4: "map fst S' = filter (\<lambda>k. \<not> is_array_index k)
             (filter (\<lambda>k. k \<notin> set E \<and> k \<notin> set object_prototype_keys) (map fst i))"
        by blast
      show ?thesis
        apply (rule exI[of _ A'], rule exI[of _ B'], rule exI[of _ "(k, v) # S'"])
        using 1 2 3 4 m False new(2) np by (simp add: p)
    qed
  qed
qed

lemma merge_info_order:
  fixes B :: "json obj"
  assumes "\<forall>e \<in> fst ` set B. \<not> is_array_index e" "B \<noteq> []"
    and "property_order (map fst i)"
  shows "filter (\<lambda>k. k \<notin> fst ` set B) (map fst (merge_info i B)) =
         filter (\<lambda>k. k \<notin> fst ` set B \<and> k \<notin> set object_prototype_keys) (map fst i)"
proof -
  let ?E = "map fst B"
  let ?add = "filter (\<lambda>k. k \<notin> set ?E \<and> k \<notin> set object_prototype_keys) (map fst i)"
  have E: "?E \<noteq> []" "\<forall>e \<in> set ?E. \<not> is_array_index e"
    using assms(1,2) by auto
  from assms(3) have d: "distinct (map fst i)" and s: "sorted_wrt key_before (map fst i)"
    by (simp_all add: property_order_def)
  from merge_info_shape[OF E d s refl, of "[]" "[]"]
  obtain A' B' S' where
    1: "merge_info i B = A' @ B' @ S'" and 2: "map fst B' = ?E"
    and 3: "map fst A' = filter is_array_index ?add"
    and 4: "map fst S' = filter (\<lambda>k. \<not> is_array_index k) ?add"
    by auto
  have "sorted_wrt key_before ?add"
    using s by (rule sorted_wrt_filter)
  then have part: "filter is_array_index ?add @ filter (\<lambda>k. \<not> is_array_index k) ?add = ?add"
    by (rule index_first_partition)
  have "filter (\<lambda>k. k \<notin> set ?E) (map fst (merge_info i B))
      = filter (\<lambda>k. k \<notin> set ?E) (map fst A') @ filter (\<lambda>k. k \<notin> set ?E) ?E
        @ filter (\<lambda>k. k \<notin> set ?E) (map fst S')"
    by (simp add: 1 2)
  also have "filter (\<lambda>k. k \<notin> set ?E) ?E = []"
    by (simp add: filter_empty_conv)
  also have "filter (\<lambda>k. k \<notin> set ?E) (map fst A') = map fst A'"
    unfolding 3 by (rule filter_True) auto
  also have "filter (\<lambda>k. k \<notin> set ?E) (map fst S') = map fst S'"
    unfolding 4 by (rule filter_True) auto
  finally have "filter (\<lambda>k. k \<notin> set ?E) (map fst (merge_info i B)) = ?add"
    using part by (simp add: 3 4)
  then show ?thesis by simp
qed


lemma build_links_fault_iff:
  "build_links w = Inl e \<longleftrightarrow>
     swaggerDoc w = Inl e
     \<or> (swaggerDoc w = Inr None \<and> e = TypeError ''basePath'')
     \<or> (\<exists>doc. swaggerDoc w = Inr (Some doc) \<and> None \<in> set (slots (operations doc))
           \<and> e = TypeError ''operationId'')"
proof (cases "swaggerDoc w")
  case (Inl x)
  then show ?thesis by (auto simp: build_links_thrown)
next
  case (Inr d)
  show ?thesis
  proof (cases d)
    case None
    with Inr show ?thesis by (auto simp: build_links_undefined)
  next
    case (Some doc)
    obtain base where "resolve_basePath (Some doc) = Inr base"
      using resolve_basePath_Some by blast
    with Inr Some show ?thesis
      by (auto simp: build_links_document)
  qed
qed


section \<open>Separators\<close>

lemma has_triple_skip:
  "c \<noteq> CHR ''/'' \<Longrightarrow> has_triple (x # c # r) = has_triple (c # r)"
  by (cases r) auto

lemma has_triple_append_sep:
  "c \<noteq> CHR ''/'' \<Longrightarrow>
   has_triple (s @ CHR ''/'' # c # r) \<longleftrightarrow> has_triple s \<or> ends_double s \<or> has_triple (c # r)"
  by (induction s rule: has_triple.induct) (auto simp: ends_double_def has_triple_skip)

lemma stripped_join:
  assumes "\<not> ends_double base" "base \<noteq> ''/''"
  shows "\<not> double_at_join (stripTrailingSlash base) pathKey"
proof (cases "base \<noteq> [] \<and> last base = CHR ''/''")
  case True
  then obtain xs where xs: "base = xs @ ''/''"
    by (metis append_butlast_last_id)
  with assms(2) have ne: "xs \<noteq> []" by auto
  with assms(1) xs have "last xs \<noteq> CHR ''/''"
    by (cases xs) (auto simp: ends_double_def)
  with xs ne show ?thesis
    by (simp add: stripTrailingSlash_def double_at_join_def)
next
  case False
  then show ?thesis
    by (auto simp: stripTrailingSlash_def double_at_join_def)
qed

lemma cleanPath_scheme:
  "CHR ''/'' \<notin> set s \<Longrightarrow> cleanPath (s @ ''://'' @ x) = s @ '':/'' @ cleanPath x"
proof (induction s)
  case Nil
  show ?case by simp
next
  case (Cons c s)
  obtain b cs where "s @ ''://'' @ x = b # cs"
    by (cases "s @ ''://'' @ x") auto
  with Cons show ?case by auto
qed

lemma stripped_scheme:
  assumes "rest \<noteq> []"
  shows "take (length scheme + 3) (stripTrailingSlash (scheme @ ''://'' @ rest) @ pathKey)
         = scheme @ ''://''"
proof -
  have b: "butlast (scheme @ ''://'' @ rest) = scheme @ ''://'' @ butlast rest"
    using assms by (simp add: butlast_append)
  have "\<exists>t. stripTrailingSlash (scheme @ ''://'' @ rest) = (scheme @ ''://'') @ t"
    using assms b by (auto simp: stripTrailingSlash_def Let_def)
  then obtain t where "stripTrailingSlash (scheme @ ''://'' @ rest) = (scheme @ ''://'') @ t"
    by blast
  then show ?thesis by simp
qed

lemma cleanPath_nonempty: "s \<noteq> [] \<Longrightarrow> cleanPath s \<noteq> []"
proof (cases s)
  case Nil
  assume "s \<noteq> []"
  with Nil show ?thesis by simp
next
  case (Cons a l)
  obtain r where "cleanPath (a # l) = a # r"
    using cleanPath_Cons by blast
  with Cons show ?thesis by simp
qed


section \<open>The self link and the links of a document\<close>

lemma count_list_distinct:
  "distinct xs \<Longrightarrow> x \<in> set xs \<Longrightarrow> count_list xs x = 1"
  by (induction xs) auto

lemma releaseName_nonempty: "releaseName ev \<noteq> []"
  by (simp add: releaseName_def nonempty_def split: option.splits)

lemma componentName_nonempty: "componentName ev \<noteq> []"
  by (simp add: componentName_def nonempty_def split: option.splits)

lemma or_default_truthy: "truthy dflt \<Longrightarrow> truthy (or_default x dflt)"
  by (simp add: or_default_def split: option.splits)

lemma self_literal_keys: "map fst (self_literal d ev base) = explicit_fields"
  by (simp add: self_literal_def explicit_fields_def)

lemma explicit_not_index: "\<forall>e \<in> set explicit_fields. \<not> is_array_index e"
  by (simp add: explicit_fields_def is_array_index_def digit_val_def)

lemma self_literal_truthy:
  assumes "base \<noteq> []" "k \<in> set explicit_fields" "k \<noteq> ''description''"
  shows "truthy_at (self_literal d ev base) k"
  using assms
  by (auto simp: explicit_fields_def self_literal_def truthy_at_def releaseName_nonempty
                 componentName_nonempty or_default_truthy cleanPath_nonempty)

lemma self_literal_has: "fst ` set (self_literal d ev base) = set explicit_fields"
  by (metis self_literal_keys set_map)

lemma build_self_has: "set explicit_fields \<subseteq> fst ` set (build_self d ev base)"
proof
  fix k assume "k \<in> set explicit_fields"
  then have "k \<in> fst ` set (self_literal d ev base)"
    by (simp only: self_literal_has)
  then show "k \<in> fst ` set (build_self d ev base)"
    by (cases "info_of d") (simp_all add: build_self_def merge_info_keeps)
qed

lemma build_self_explicit:
  assumes "base \<noteq> []" "k \<in> set explicit_fields" "k \<noteq> ''description''"
  shows "map_of (build_self d ev base) k = map_of (self_literal d ev base) k"
  using self_literal_truthy[OF assms]
  by (simp add: build_self_def merge_info_truthy split: option.splits)

lemma links_of_document:
  assumes "swaggerDoc w = Inr (Some doc)" "resolve_basePath (Some doc) = Inr base"
    and "build_links w = Inr ls"
  shows "ls = emit_seq (unicode_upper w) base (operations doc) [(''self'', build_self (Some doc) (env w) base)]"
  using build_links_document[OF assms(1,2)] assms(3) by (simp split: if_splits)

lemma base_nonempty: "resolve_basePath (Some doc) = Inr base \<Longrightarrow> base \<noteq> []"
  using resolve_basePath_Some[of doc] by auto

lemma self_entry_kept:
  assumes "swaggerDoc w = Inr (Some doc)" "resolve_basePath (Some doc) = Inr base"
    and "build_links w = Inr ls" "''self'' \<notin> set (linked_ids (operations doc))"
  shows "map_of ls ''self'' = Some (build_self (Some doc) (env w) base)"
  unfolding links_of_document[OF assms(1-3)]
  using assms(4) by (simp add: emit_seq_other)

lemma emitted_entry:
  assumes "swaggerDoc w = Inr (Some doc)" "resolve_basePath (Some doc) = Inr base"
    and "build_links w = Inr ls"
    and "operations doc = pre @ (pk, mk, Some op) # post"
    and "nonempty (operationId op) = Some oid" "oid \<noteq> ''__proto__''"
    and "oid \<notin> set (linked_ids post)"
  shows "map_of ls oid = Some (operation_literal (unicode_upper w) base pk mk op oid @ link_tags op)"
  unfolding links_of_document[OF assms(1-3)] assms(4)
  by (rule emit_seq_last[OF assms(5-7)])

lemma upper_char_not_lower: "upper_char c \<notin> set lower_letters"
  by (simp add: upper_char_def lower_letters_def upper_letters_def)

lemma toUpperCase_ascii: "is_ascii s \<Longrightarrow> toUpperCase uc s = map upper_char s"
  by (simp add: toUpperCase_def)

lemma toUpperCase_no_lower:
  "is_ascii s \<Longrightarrow> set (toUpperCase uc s) \<inter> set lower_letters = {}"
  using upper_char_not_lower by (auto simp: toUpperCase_def)

lemma build_links_ok:
  assumes "swaggerDoc w = Inr (Some doc)" "None \<notin> set (slots (operations doc))"
    and "resolve_basePath (Some doc) = Inr base"
  shows "build_links w =
         Inr (emit_seq (unicode_upper w) base (operations doc) [(''self'', build_self (Some doc) (env w) base)])"
  using build_links_document[OF assms(1,3)] assms(2) by simp

lemma emit_operation_without_id:
  "nonempty (operationId op) = None \<Longrightarrow> emit_operation uc base pk mk op ls = ls"
  by (simp add: emit_operation_def)


lemma tooling_link_kept:
  assumes "k = ''swagger-ui'' \<or> k = ''openapi''"
  shows "map_of (build_self d ev base) k = map_of (self_literal d ev base) k"
proof -
  have "truthy_at (self_literal d ev base) k"
    using assms by (auto simp: self_literal_def truthy_at_def cleanPath_nonempty)
  then show ?thesis
    by (simp add: build_self_def merge_info_truthy split: option.splits)
qed

lemma has_triple_tooling:
  assumes "c \<noteq> CHR ''/''" "\<not> has_triple (c # r)"
  shows "has_double (cleanPath (base @ CHR ''/'' # c # r)) \<longleftrightarrow> has_triple base \<or> ends_double base"
  using assms by (simp add: has_double_cleanPath has_triple_append_sep)

lemma falsy_cases: "\<not> truthy v \<longleftrightarrow> v \<in> {JNull, JBool False, JNum 0, JStr []}"
  by (cases v) auto

lemma info_field_Some: "info doc = Some i \<Longrightarrow> info_field (Some doc) k = map_of i k"
  by (simp add: info_field_def info_of_def)

lemma build_self_Some:
  "info doc = Some i \<Longrightarrow>
   build_self (Some doc) ev base = merge_info i (self_literal (Some doc) ev base)"
  by (simp add: build_self_def info_of_def)

lemma stripped_unchanged:
  "s \<noteq> [] \<Longrightarrow> last s \<noteq> CHR ''/'' \<Longrightarrow> stripTrailingSlash s = s"
  by (simp add: stripTrailingSlash_def)


section \<open>The store: frame and agreement with the values\<close>

lemma length_write_prop: "length (write_prop a k v h) = length h"
  by (simp add: write_prop_def)

lemma length_assign_object: "length (assign_object a k e h) = length h"
  by (simp add: assign_object_def write_prop_def)

lemma take_write_prop: "n \<le> a \<Longrightarrow> take n (write_prop a k v h) = take n h"
  by (simp add: write_prop_def)

lemma take_assign_object: "n \<le> a \<Longrightarrow> take n (assign_object a k e h) = take n h"
  by (simp add: assign_object_def write_prop_def)

lemma read_object_write_data:
  "l < length h \<Longrightarrow> read_object (write_prop s k (Data v) h) l k' = Some t \<Longrightarrow>
   read_object h l k' = Some t"
  by (cases "s = l")
     (auto simp: read_object_def write_prop_def map_of_obj_set
           split: option.splits hval.splits if_splits)

lemma fresh_links_write_data:
  "fresh_links n l h \<Longrightarrow> fresh_links n l (write_prop s k (Data v) h)"
  unfolding fresh_links_def
  by (auto simp: length_write_prop dest: read_object_write_data)

lemma read_object_assign:
  "l < length h \<Longrightarrow> read_object (assign_object l k e h) l k' = Some t \<Longrightarrow>
   t = e \<or> read_object h l k' = Some t"
  by (auto simp: read_object_def assign_object_def write_prop_def map_of_obj_set
           split: option.splits hval.splits if_splits)

lemma fresh_links_assign:
  "fresh_links n l h \<Longrightarrow> n \<le> e \<Longrightarrow> fresh_links n l (assign_object l k e h)"
  unfolding fresh_links_def
  by (auto simp: length_assign_object dest: read_object_assign)

lemma read_object_append: "l < length h \<Longrightarrow> read_object (h @ [x]) l k = read_object h l k"
  by (auto simp: read_object_def nth_append split: option.splits hval.splits)

lemma fresh_links_append: "fresh_links n l h \<Longrightarrow> fresh_links n l (h @ [x])"
  unfolding fresh_links_def by (auto simp: read_object_append)

lemma merge_info_st_frame:
  "fresh_links n l h \<Longrightarrow> merge_info_st i l h = (x, h') \<Longrightarrow>
   take n h' = take n h \<and> fresh_links n l h' \<and> length h' = length h"
proof (induction i arbitrary: h)
  case Nil
  then show ?case by simp
next
  case (Cons p i)
  obtain k v where p: "p = (k, v)" by (cases p)
  show ?case
  proof (cases "read_object h l ''self''")
    case None
    with Cons.prems show ?thesis by (simp add: p)
  next
    case (Some s)
    have ns: "n \<le> s"
      using Cons.prems(1) Some by (auto simp: fresh_links_def)
    define h1 where "h1 = (if \<not> truthy_in h s k then write_prop s k (Data v) h else h)"
    have f1: "fresh_links n l h1"
      using Cons.prems(1) by (simp add: h1_def fresh_links_write_data)
    have t1: "take n h1 = take n h" "length h1 = length h"
      using ns by (simp_all add: h1_def take_write_prop length_write_prop)
    have "merge_info_st i l h1 = (x, h')"
      using Cons.prems(2) Some by (simp add: p h1_def)
    from Cons.IH[OF f1 this] t1 show ?thesis by simp
  qed
qed

lemma fresh_links_new_object: "fresh_links n l h \<Longrightarrow> fresh_links n l (new_object ps h)"
  unfolding new_object_def by (rule fresh_links_append)

lemma add_tags_st_frame:
  assumes "fresh_links n l h" "add_tags_st op oid l h = (x, h')"
  shows "take n h' = take n h \<and> fresh_links n l h' \<and> length h' = length h"
proof (cases "\<exists>ts t. tags op = Some ts \<and> length ts > 0 \<and> read_object h l oid = Some t")
  case True
  then obtain ts t where tt: "tags op = Some ts" "length ts > 0" "read_object h l oid = Some t"
    by blast
  then have h': "h' = write_prop t ''tags'' (Data (JArr (map JStr ts))) h"
    using assms(2) by (simp add: add_tags_st_def)
  have "n \<le> t"
    using assms(1) tt(3) by (auto simp: fresh_links_def)
  then show ?thesis
    using assms(1) by (simp add: h' take_write_prop length_write_prop fresh_links_write_data)
next
  case False
  then have "h' = h"
    using assms(2) by (auto simp: add_tags_st_def split: option.splits if_splits)
  then show ?thesis
    using assms(1) by simp
qed

lemma emit_operation_st_frame:
  assumes "fresh_links n l h" "n \<le> length h"
    and "emit_operation_st uc base pk mk op l h = (x, h')"
  shows "take n h' = take n h \<and> fresh_links n l h' \<and> length h \<le> length h'"
proof (cases "nonempty (operationId op)")
  case None
  with assms show ?thesis by (simp add: emit_operation_st_def)
next
  case (Some oid)
  define h2 where "h2 = assign_object l oid (length h)
      (new_object (data_props (operation_literal uc base pk mk op oid)) h)"
  have l: "n \<le> l" "l < length h"
    using assms(1) by (simp_all add: fresh_links_def)
  have f2: "fresh_links n l h2"
    unfolding h2_def
    by (rule fresh_links_assign[OF fresh_links_new_object[OF assms(1)] assms(2)])
  have t2: "take n h2 = take n h" "length h2 = Suc (length h)"
    using l assms(2)
    by (simp_all add: h2_def new_object_def take_assign_object length_assign_object)
  have "add_tags_st op oid l h2 = (x, h')"
    using assms(3) by (simp add: emit_operation_st_def Some h2_def)
  from add_tags_st_frame[OF f2 this] t2 show ?thesis by simp
qed

lemma methods_loop_st_frame:
  "fresh_links n l h \<Longrightarrow> n \<le> length h \<Longrightarrow> methods_loop_st uc base pk item l h = (x, h') \<Longrightarrow>
   take n h' = take n h \<and> fresh_links n l h' \<and> length h \<le> length h'"
proof (induction item arbitrary: h)
  case Nil
  then show ?case by simp
next
  case (Cons p item)
  obtain mk slot where p: "p = (mk, slot)" by (cases p)
  show ?case
  proof (cases slot)
    case None
    with Cons.prems show ?thesis by (simp add: p)
  next
    case (Some op)
    obtain y h1 where e: "emit_operation_st uc base pk mk op l h = (y, h1)"
      by (cases "emit_operation_st uc base pk mk op l h")
    note f = emit_operation_st_frame[OF Cons.prems(1,2) e]
    show ?thesis
    proof (cases y)
      case None
      then have "methods_loop_st uc base pk item l h1 = (x, h')"
        using Cons.prems(3) Some e by (simp add: p)
      from Cons.IH[OF _ _ this] f Cons.prems(2) show ?thesis by simp
    next
      case (Some ex)
      then have "h' = h1"
        using Cons.prems(3) \<open>slot = Some op\<close> e by (simp add: p)
      with f show ?thesis by simp
    qed
  qed
qed

lemma paths_loop_st_frame:
  "fresh_links n l h \<Longrightarrow> n \<le> length h \<Longrightarrow> paths_loop_st uc base ps l h = (x, h') \<Longrightarrow>
   take n h' = take n h \<and> fresh_links n l h' \<and> length h \<le> length h'"
proof (induction ps arbitrary: h)
  case Nil
  then show ?case by simp
next
  case (Cons p ps)
  obtain pk item where p: "p = (pk, item)" by (cases p)
  obtain y h1 where e: "methods_loop_st uc base pk item l h = (y, h1)"
    by (cases "methods_loop_st uc base pk item l h")
  note f = methods_loop_st_frame[OF Cons.prems(1,2) e]
  show ?case
  proof (cases y)
    case None
    then have "paths_loop_st uc base ps l h1 = (x, h')"
      using Cons.prems(3) e by (simp add: p)
    from Cons.IH[OF _ _ this] f Cons.prems(2) show ?thesis by simp
  next
    case (Some ex)
    then have "h' = h1"
      using Cons.prems(3) e by (simp add: p)
    with f show ?thesis by simp
  qed
qed

lemma new_links_frame:
  "take (length h) (new_links d ev base h) = h"
  "fresh_links (length h) (Suc (length h)) (new_links d ev base h)"
  "length (new_links d ev base h) = Suc (Suc (length h))"
  by (auto simp: new_links_def new_object_def fresh_links_def read_object_def nth_append
           split: option.splits hval.splits if_splits)

lemma info_stage_frame:
  "fresh_links n l h \<Longrightarrow> info_stage d l h = (x, h') \<Longrightarrow>
   take n h' = take n h \<and> fresh_links n l h' \<and> length h' = length h"
  by (cases "info_of d") (auto simp: info_stage_def dest: merge_info_st_frame)

lemma paths_stage_frame:
  assumes "fresh_links n l h" "n \<le> length h" "paths_stage uc d base l h = (x, h')"
  shows "take n h' = take n h \<and> fresh_links n l h' \<and> length h \<le> length h'"
proof (cases "\<exists>doc ps. d = Some doc \<and> paths doc = Some ps")
  case True
  then obtain doc ps where "d = Some doc" "paths doc = Some ps" by blast
  with assms(3) have "paths_loop_st uc base ps l h = (x, h')"
    by (simp add: paths_stage_def)
  from paths_loop_st_frame[OF assms(1,2) this] show ?thesis .
next
  case False
  with assms(3) have "h' = h"
    by (auto simp: paths_stage_def split: option.splits)
  with assms(1) show ?thesis by simp
qed

lemma build_links_st_frame:
  assumes "build_links_st w h = (r, h')"
  shows "take (length h) h' = h"
proof (cases "swaggerDoc w")
  case (Inl e)
  with assms show ?thesis by (simp add: build_links_st_def)
next
  case (Inr d)
  show ?thesis
  proof (cases "resolve_basePath d")
    case (Inl e)
    with Inr assms show ?thesis by (simp add: build_links_st_def)
  next
    case base: (Inr base)
    define n where "n = length h"
    define h2 where "h2 = new_links d (env w) base h"
    obtain x h3 where m: "info_stage d (Suc n) h2 = (x, h3)"
      by (cases "info_stage d (Suc n) h2")
    have 2: "take n h2 = h" "fresh_links n (Suc n) h2" "length h2 = Suc (Suc n)"
      unfolding n_def h2_def by (rule new_links_frame)+
    from info_stage_frame[OF 2(2) m] 2
    have 3: "take n h3 = h" "fresh_links n (Suc n) h3" "n \<le> length h3"
      by simp_all
    show ?thesis
    proof (cases x)
      case (Some e)
      with assms Inr base m have "h' = h3"
        by (simp add: build_links_st_def n_def h2_def)
      with 3 show ?thesis by (simp add: n_def)
    next
      case None
      obtain y h4 where o: "paths_stage (unicode_upper w) d base (Suc n) h3 = (y, h4)"
        by (cases "paths_stage (unicode_upper w) d base (Suc n) h3")
      from paths_stage_frame[OF 3(2,3) o] 3 have 4: "take n h4 = h" by simp
      from assms Inr base m None o have "h' = h4"
        by (cases y) (simp_all add: build_links_st_def n_def h2_def)
      with 4 show ?thesis by (simp add: n_def)
    qed
  qed
qed

lemma map_of_map_vals: "map_of (map_vals g ps) k = map_option g (map_of ps k)"
  by (induction ps) (auto simp: map_vals_def)

lemma keys_map_vals: "map fst (map_vals g ps) = map fst ps"
  by (induction ps) (auto simp: map_vals_def)

lemma key_set_map_vals: "fst ` set (map_vals g ps) = fst ` set ps"
  by (induction ps) (auto simp: map_vals_def)

lemma data_of_data_props: "map_vals data_of (data_props ps) = ps"
  by (induction ps) (auto simp: map_vals_def data_props_def data_of_def)

lemma replace_value_map_vals:
  "map_vals g (replace_value k v ps) = replace_value k (g v) (map_vals g ps)"
  by (induction ps) (auto simp: map_vals_def)

lemma insert_index_map_vals:
  "map_vals g (insert_index k v ps) = insert_index k (g v) (map_vals g ps)"
  by (induction ps) (auto simp: map_vals_def)

lemma obj_set_map_vals: "map_vals g (obj_set k v ps) = obj_set k (g v) (map_vals g ps)"
  by (simp add: obj_set_def map_of_map_vals replace_value_map_vals insert_index_map_vals)
     (simp add: map_vals_def)

lemma map_vals_cong:
  "(\<And>x. x \<in> snd ` set ps \<Longrightarrow> g' x = g x) \<Longrightarrow> map_vals g' ps = map_vals g ps"
  by (induction ps) (auto simp: map_vals_def)

lemma map_vals_replace:
  assumes "distinct (map fst ps)" "map_of ps k = Some x"
    and "\<And>k' y. (k', y) \<in> set ps \<Longrightarrow> k' \<noteq> k \<Longrightarrow> g' y = g y"
  shows "map_vals g' ps = replace_value k (g' x) (map_vals g ps)"
  using assms
proof (induction ps)
  case Nil
  then show ?case by simp
next
  case (Cons p ps)
  obtain k' y where p: "p = (k', y)" by (cases p)
  show ?case
  proof (cases "k' = k")
    case True
    with Cons.prems p have x: "y = x" and nk: "k \<notin> fst ` set ps"
      by auto
    have "map_vals g' ps = map_vals g ps"
    proof (rule map_vals_cong)
      fix z assume "z \<in> snd ` set ps"
      then obtain kz where kz: "(kz, z) \<in> set ps" by auto
      with nk have "kz \<noteq> k" by force
      with kz show "g' z = g z" using Cons.prems(3)[of kz z] by simp
    qed
    moreover have "replace_value k (g' x) (map_vals g ps) = map_vals g ps"
      using nk by (intro replace_value_absent) (simp add: key_set_map_vals)
    ultimately show ?thesis
      using True x by (simp add: p map_vals_def)
  next
    case False
    have "map_vals g' ps = replace_value k (g' x) (map_vals g ps)"
      using Cons.prems False by (intro Cons.IH) (auto simp: p)
    moreover have "g' y = g y"
      using Cons.prems(3)[of k' y] False by (simp add: p)
    ultimately show ?thesis
      using False by (simp add: p map_vals_def)
  qed
qed

lemma entry_at_data: "entry_at (new_object (data_props ps) h) (length h) = ps"
  by (simp add: entry_at_def new_object_def data_of_data_props)

lemma truthy_in_entry: "truthy_in h s k = truthy_at (entry_at h s) k"
  by (simp add: truthy_in_def truthy_at_def entry_at_def map_of_map_vals data_of_def
           split: option.splits hval.splits)

lemma entry_at_write:
  "s < length h \<Longrightarrow> entry_at (write_prop s k x h) s = obj_set k (data_of x) (entry_at h s)"
  by (simp add: entry_at_def write_prop_def obj_set_map_vals)

lemma nth_write_prop_other: "a \<noteq> s \<Longrightarrow> write_prop s k x h ! a = h ! a"
  by (simp add: write_prop_def)

lemma props_write_prop: "s < length h \<Longrightarrow> props (write_prop s k x h ! s) = obj_set k x (props (h ! s))"
  by (simp add: write_prop_def)

lemma merge_info_st_refines:
  assumes "props (h ! l) = [(''self'', Ref s)]" "s < length h" "l < length h" "s \<noteq> l"
  shows "\<exists>h'. merge_info_st i l h = (None, h') \<and> length h' = length h
           \<and> h' ! l = h ! l \<and> entry_at h' s = merge_info i (entry_at h s)"
  using assms
proof (induction i arbitrary: h)
  case Nil
  then show ?case by simp
next
  case (Cons p i)
  obtain k v where p: "p = (k, v)" by (cases p)
  define h1 where "h1 = (if \<not> truthy_in h s k then write_prop s k (Data v) h else h)"
  have r: "read_object h l ''self'' = Some s"
    using Cons.prems(1) by (simp add: read_object_def)
  have 1: "h1 ! l = h ! l" "length h1 = length h"
    using Cons.prems(4) by (simp_all add: h1_def nth_write_prop_other length_write_prop)
  have e1: "entry_at h1 s =
      (if \<not> truthy_at (entry_at h s) k then obj_set k v (entry_at h s) else entry_at h s)"
    using Cons.prems(2) by (simp add: h1_def truthy_in_entry entry_at_write data_of_def)
  have "\<exists>h'. merge_info_st i l h1 = (None, h') \<and> length h' = length h1
           \<and> h' ! l = h1 ! l \<and> entry_at h' s = merge_info i (entry_at h1 s)"
    using Cons.prems 1 by (intro Cons.IH) simp_all
  then obtain h' where h': "merge_info_st i l h1 = (None, h')" "length h' = length h1"
      "h' ! l = h1 ! l" "entry_at h' s = merge_info i (entry_at h1 s)"
    by blast
  have "merge_info_st (p # i) l h = (None, h')"
    using r h'(1) by (simp add: p h1_def)
  moreover have "entry_at h' s = merge_info (p # i) (entry_at h s)"
    using h'(4) e1 by (simp add: p)
  ultimately show ?case
    using h'(2,3) 1 by simp
qed

lemma links_at_same:
  assumes "props (h' ! l) = props (h ! l)"
    and "\<And>e. Ref e \<in> snd ` set (props (h ! l)) \<Longrightarrow> entry_at h' e = entry_at h e"
  shows "links_at h' l = links_at h l"
  unfolding links_at_def assms(1)
proof (rule map_vals_cong)
  fix x assume "x \<in> snd ` set (props (h ! l))"
  then show "entry_of h' x = entry_of h x"
    using assms(2) by (cases x) (simp_all add: entry_of_def)
qed

lemma entry_at_same: "h' ! e = h ! e \<Longrightarrow> entry_at h' e = entry_at h e"
  by (simp add: entry_at_def)

lemma links_ok_refs:
  "links_ok h l \<Longrightarrow> Ref e \<in> snd ` set (props (h ! l)) \<Longrightarrow> e < length h \<and> e \<noteq> l"
  by (auto simp: links_ok_def)

lemma links_at_keys: "fst ` set (links_at h l) = fst ` set (props (h ! l))"
  by (simp add: links_at_def key_set_map_vals)

lemma add_tags_st_refines:
  assumes "l < length h" "e < length h" "e \<noteq> l" "read_object h l oid = Some e"
    and "distinct (map fst (props (h ! l)))"
    and "\<And>k y. (k, y) \<in> set (props (h ! l)) \<Longrightarrow> k \<noteq> oid \<Longrightarrow> y \<noteq> Ref e"
    and "entry_at h e = lit"
  shows "\<exists>h'. add_tags_st op oid l h = (None, h') \<and> length h' = length h \<and> h' ! l = h ! l
      \<and> links_at h' l =
          (case tags op of
             None \<Rightarrow> links_at h l
           | Some ts \<Rightarrow> if length ts > 0 then links_set_tags oid ts (links_at h l)
                        else links_at h l)"
proof (cases "\<exists>ts. tags op = Some ts \<and> length ts > 0")
  case False
  then have "tags op = None \<or> tags op = Some []"
    by (cases "tags op") auto
  then show ?thesis
    by (auto simp: add_tags_st_def)
next
  case True
  then obtain ts where ts: "tags op = Some ts" "length ts > 0" by blast
  define T where "T = JArr (map JStr ts)"
  define h' where "h' = write_prop e ''tags'' (Data T) h"
  have run: "add_tags_st op oid l h = (None, h')"
    using ts assms(4) by (simp add: add_tags_st_def h'_def T_def)
  have same: "h' ! l = h ! l" "length h' = length h"
    using assms(3) by (simp_all add: h'_def nth_write_prop_other length_write_prop)
  have e': "entry_at h' e = obj_set ''tags'' T lit"
    using assms(2,7) by (simp add: h'_def entry_at_write data_of_def)
  have other: "entry_of h' y = entry_of h y" if "(k, y) \<in> set (props (h ! l))" "k \<noteq> oid" for k y
  proof (cases y)
    case (Data v)
    then show ?thesis by (simp add: entry_of_def)
  next
    case (Ref t)
    with assms(6)[OF that] have "t \<noteq> e" by simp
    then have "h' ! t = h ! t"
      by (simp add: h'_def nth_write_prop_other)
    then show ?thesis
      by (simp add: Ref entry_of_def entry_at_def)
  qed
  show ?thesis
  proof (cases "map_of (props (h ! l)) oid")
    case None
    have "links_at h' l = links_at h l"
      unfolding links_at_def same(1)
    proof (rule map_vals_cong)
      fix x assume "x \<in> snd ` set (props (h ! l))"
      then obtain k where k: "(k, x) \<in> set (props (h ! l))" by auto
      with None have "k \<noteq> oid"
        by (force simp: map_of_eq_None_iff)
      with k show "entry_of h' x = entry_of h x" by (rule other)
    qed
    moreover have "map_of (links_at h l) oid = None"
      using None by (simp add: links_at_def map_of_map_vals)
    ultimately show ?thesis
      using run same ts by (simp add: links_set_tags_def)
  next
    case (Some x)
    with assms(4) have x: "x = Ref e"
      by (auto simp: read_object_def split: hval.splits)
    have "links_at h' l = replace_value oid (entry_of h' x) (links_at h l)"
      unfolding links_at_def same(1)
      by (rule map_vals_replace[OF assms(5) Some other])
    also have "entry_of h' x = obj_set ''tags'' T lit"
      by (simp add: x entry_of_def e')
    finally have l': "links_at h' l = replace_value oid (obj_set ''tags'' T lit) (links_at h l)" .
    have "map_of (links_at h l) oid = Some lit"
      using Some assms(7) by (simp add: links_at_def map_of_map_vals x entry_of_def)
    then have "links_set_tags oid ts (links_at h l)
        = replace_value oid (obj_set ''tags'' T lit) (links_at h l)"
      by (simp add: links_set_tags_def obj_set_def T_def)
    with l' run same ts show ?thesis by simp
  qed
qed

lemma assign_object_refines:
  fixes h :: store and l :: addr and oid :: string and lit :: entry
  assumes ok: "links_ok h l"
  defines "h2 \<equiv> assign_object l oid (length h) (new_object (data_props lit) h)"
  shows "links_ok h2 l" "links_at h2 l = links_set oid lit (links_at h l)"
    "read_object h2 l oid = Some (length h)" "entry_at h2 (length h) = lit"
    "\<And>k y. (k, y) \<in> set (props (h2 ! l)) \<Longrightarrow> k \<noteq> oid \<Longrightarrow> y \<noteq> Ref (length h)"
    "length h2 = Suc (length h)"
proof -
  define h1 where "h1 = new_object (data_props lit) h"
  define ps where "ps = props (h ! l)"
  have l: "l < length h" and d: "distinct (map fst ps)" and np: "''__proto__'' \<notin> fst ` set ps"
    and refs: "\<And>x. x \<in> snd ` set ps \<Longrightarrow> \<exists>e. x = Ref e \<and> e < length h \<and> e \<noteq> l"
    using ok by (auto simp: links_ok_def ps_def)
  have h1l: "h1 ! l = h ! l" and len1: "length h1 = Suc (length h)"
    using l by (simp_all add: h1_def new_object_def nth_append)
  have h1e: "h1 ! length h = \<lparr>props = data_props lit, proto = None\<rparr>"
    by (simp add: h1_def new_object_def)
  have old1: "h1 ! t = h ! t" if "t < length h" for t
    using that by (simp add: h1_def new_object_def nth_append)
  have h2: "h2 = assign_object l oid (length h) h1"
    by (simp add: h2_def h1_def)
  have other2: "h2 ! t = h1 ! t" if "t \<noteq> l" for t
    using that by (simp add: h2 assign_object_def write_prop_def)
  show len2: "length h2 = Suc (length h)"
    by (simp add: h2 length_assign_object len1)
  have props2: "props (h2 ! l) = (if oid = ''__proto__'' then ps else obj_set oid (Ref (length h)) ps)"
    using l len1 by (simp add: h2 assign_object_def write_prop_def h1l ps_def)
  have proto2: "oid = ''__proto__'' \<Longrightarrow> proto (h2 ! l) = Some (length h)"
    using l len1 by (simp add: h2 assign_object_def)
  show e2: "entry_at h2 (length h) = lit"
    using l by (simp add: entry_at_def other2 h1e data_of_data_props)
  have old_entry: "entry_of h2 x = entry_of h x" if "x \<in> snd ` set ps" for x
  proof -
    from refs[OF that] obtain e where e: "x = Ref e" "e < length h" "e \<noteq> l" by blast
    then have "h2 ! e = h ! e" by (simp add: other2 old1)
    then show ?thesis by (simp add: e entry_of_def entry_at_def)
  qed
  have old_links: "map_vals (entry_of h2) ps = links_at h l"
    unfolding links_at_def ps_def[symmetric] by (rule map_vals_cong) (rule old_entry)
  show "links_at h2 l = links_set oid lit (links_at h l)"
  proof (cases "oid = ''__proto__''")
    case True
    then show ?thesis
      by (simp add: links_at_def props2 old_links[unfolded links_at_def] links_set_def)
  next
    case False
    have "links_at h2 l = obj_set oid (entry_of h2 (Ref (length h))) (map_vals (entry_of h2) ps)"
      by (simp add: links_at_def props2 False obj_set_map_vals)
    then show ?thesis
      by (simp add: old_links entry_of_def e2 links_set_def False)
  qed
  show "read_object h2 l oid = Some (length h)"
  proof (cases "oid = ''__proto__''")
    case True
    have "map_of ps ''__proto__'' = None"
      using np by (simp add: map_of_eq_None_iff)
    then show ?thesis
      by (simp add: read_object_def props2 True proto2)
  next
    case False
    then show ?thesis
      by (simp add: read_object_def props2 map_of_obj_set)
  qed
  show "y \<noteq> Ref (length h)" if "(k, y) \<in> set (props (h2 ! l))" "k \<noteq> oid" for k y
  proof -
    have "(k, y) \<in> set ps"
    proof (cases "oid = ''__proto__''")
      case True
      with that show ?thesis by (simp add: props2)
    next
      case False
      have dd: "distinct (map fst (obj_set oid (Ref (length h)) ps))"
        by (rule distinct_obj_set[OF d])
      from that False have "map_of (obj_set oid (Ref (length h)) ps) k = Some y"
        using dd by (simp add: props2)
      then have "map_of ps k = Some y"
        using that(2) by (simp add: map_of_obj_set)
      then show ?thesis by (rule map_of_SomeD)
    qed
    then have "y \<in> snd ` set ps" by force
    from refs[OF this] show ?thesis by auto
  qed
  show "links_ok h2 l"
    unfolding links_ok_def
  proof (intro conjI ballI)
    show "l < length h2" using l len2 by simp
    show "distinct (map fst (props (h2 ! l)))"
      using d by (simp add: props2 distinct_obj_set)
    show "''__proto__'' \<notin> fst ` set (props (h2 ! l))"
      using np by (simp add: props2 keys_obj_set)
    fix x assume x: "x \<in> snd ` set (props (h2 ! l))"
    show "\<exists>e. x = Ref e \<and> e < length h2 \<and> e \<noteq> l"
    proof (cases "x = Ref (length h)")
      case True
      then show ?thesis using l len2 by auto
    next
      case False
      from x obtain k where k: "(k, x) \<in> set (props (h2 ! l))" by auto
      have "(k, x) \<in> set ps"
      proof (cases "oid = ''__proto__''")
        case True
        with k show ?thesis by (simp add: props2)
      next
        case np': False
        have dd: "distinct (map fst (obj_set oid (Ref (length h)) ps))"
          by (rule distinct_obj_set[OF d])
        from k np' have m: "map_of (obj_set oid (Ref (length h)) ps) k = Some x"
          using dd by (simp add: props2)
        with False have "k \<noteq> oid" by (auto simp: map_of_obj_set)
        with m have "map_of ps k = Some x" by (simp add: map_of_obj_set)
        then show ?thesis by (rule map_of_SomeD)
      qed
      then have "x \<in> snd ` set ps" by force
      from refs[OF this] len2 show ?thesis by auto
    qed
  qed
qed

lemma emit_operation_st_refines:
  assumes "links_ok h l"
  shows "\<exists>h'. emit_operation_st uc base pk mk op l h = (None, h') \<and> links_ok h' l
           \<and> links_at h' l = emit_operation uc base pk mk op (links_at h l)"
proof (cases "nonempty (operationId op)")
  case None
  with assms show ?thesis
    by (simp add: emit_operation_st_def emit_operation_def)
next
  case (Some oid)
  define lit where "lit = operation_literal uc base pk mk op oid"
  define h2 where "h2 = assign_object l oid (length h) (new_object (data_props lit) h)"
  note a = assign_object_refines[OF assms, where oid = oid and lit = lit, folded h2_def]
  have l2: "l < length h2" and d2: "distinct (map fst (props (h2 ! l)))"
    using a(1) by (simp_all add: links_ok_def)
  have el: "length h \<noteq> l" "length h < length h2"
    using assms a(6) by (simp_all add: links_ok_def)
  have "\<exists>h'. add_tags_st op oid l h2 = (None, h') \<and> length h' = length h2 \<and> h' ! l = h2 ! l
      \<and> links_at h' l =
          (case tags op of
             None \<Rightarrow> links_at h2 l
           | Some ts \<Rightarrow> if length ts > 0 then links_set_tags oid ts (links_at h2 l)
                        else links_at h2 l)"
  proof (rule add_tags_st_refines[where e = "length h" and lit = lit])
    show "l < length h2" by (rule l2)
    show "length h < length h2" by (rule el(2))
    show "length h \<noteq> l" by (rule el(1))
    show "read_object h2 l oid = Some (length h)" by (rule a(3))
    show "distinct (map fst (props (h2 ! l)))" by (rule d2)
    show "entry_at h2 (length h) = lit" by (rule a(4))
  next
    fix k y assume "(k, y) \<in> set (props (h2 ! l))" "k \<noteq> oid"
    then show "y \<noteq> Ref (length h)" by (rule a(5))
  qed
  then obtain h' where h': "add_tags_st op oid l h2 = (None, h')" "length h' = length h2"
    "h' ! l = h2 ! l"
    "links_at h' l =
       (case tags op of
          None \<Rightarrow> links_at h2 l
        | Some ts \<Rightarrow> if length ts > 0 then links_set_tags oid ts (links_at h2 l)
                     else links_at h2 l)"
    by blast
  have run: "emit_operation_st uc base pk mk op l h = (None, h')"
    using h'(1) by (simp add: emit_operation_st_def Some h2_def lit_def)
  have ok: "links_ok h' l"
    using a(1) h'(2,3) by (simp add: links_ok_def)
  have "links_at h' l = emit_operation uc base pk mk op (links_at h l)"
    by (simp add: h'(4) a(2) emit_operation_def Some lit_def Let_def split: option.splits)
  with run ok show ?thesis by blast
qed

lemma methods_loop_st_refines:
  "links_ok h l \<Longrightarrow>
   (case methods_loop_st uc base pk item l h of
      (None, h') \<Rightarrow> links_ok h' l \<and> methods_loop uc base pk item (links_at h l) = Inr (links_at h' l)
    | (Some e, h') \<Rightarrow> methods_loop uc base pk item (links_at h l) = Inl e)"
proof (induction item arbitrary: h)
  case Nil
  then show ?case by simp
next
  case (Cons p item)
  obtain mk slot where p: "p = (mk, slot)" by (cases p)
  show ?case
  proof (cases slot)
    case None
    then show ?thesis by (simp add: p)
  next
    case (Some op)
    from emit_operation_st_refines[OF Cons.prems, where uc = uc and base = base and pk = pk
        and mk = mk and op = op]
    obtain h1 where h1: "emit_operation_st uc base pk mk op l h = (None, h1)" "links_ok h1 l"
      "links_at h1 l = emit_operation uc base pk mk op (links_at h l)"
      by blast
    obtain y h' where r: "methods_loop_st uc base pk item l h1 = (y, h')"
      by (cases "methods_loop_st uc base pk item l h1")
    from Cons.IH[OF h1(2), unfolded r] show ?thesis
      by (cases y) (simp_all add: p Some h1(1) h1(3) r)
  qed
qed

lemma paths_loop_st_refines:
  "links_ok h l \<Longrightarrow>
   (case paths_loop_st uc base ps l h of
      (None, h') \<Rightarrow> links_ok h' l \<and> paths_loop uc base ps (links_at h l) = Inr (links_at h' l)
    | (Some e, h') \<Rightarrow> paths_loop uc base ps (links_at h l) = Inl e)"
proof (induction ps arbitrary: h)
  case Nil
  then show ?case by simp
next
  case (Cons p ps)
  obtain pk item where p: "p = (pk, item)" by (cases p)
  obtain y h1 where m: "methods_loop_st uc base pk item l h = (y, h1)"
    by (cases "methods_loop_st uc base pk item l h")
  note r = methods_loop_st_refines[OF Cons.prems, where uc = uc and base = base and pk = pk
      and item = item, unfolded m]
  show ?case
  proof (cases y)
    case None
    with r have 1: "links_ok h1 l" "methods_loop uc base pk item (links_at h l) = Inr (links_at h1 l)"
      by simp_all
    obtain z h' where r': "paths_loop_st uc base ps l h1 = (z, h')"
      by (cases "paths_loop_st uc base ps l h1")
    from Cons.IH[OF 1(1), unfolded r'] show ?thesis
      by (cases z) (simp_all add: p m None 1(2) r')
  next
    case (Some e)
    with r show ?thesis by (simp add: p m)
  qed
qed

lemma new_links_refines:
  "props (new_links d ev base h ! Suc (length h)) = [(''self'', Ref (length h))]"
  "length (new_links d ev base h) = Suc (Suc (length h))"
  "entry_at (new_links d ev base h) (length h) = self_literal d ev base"
  by (simp_all add: new_links_def new_object_def nth_append entry_at_def data_of_data_props)

lemma info_stage_refines:
  assumes "props (h ! l) = [(''self'', Ref s)]" "s < length h" "l < length h" "s \<noteq> l"
    and "entry_at h s = self_literal d ev base"
  shows "\<exists>h'. info_stage d l h = (None, h') \<and> length h' = length h \<and> h' ! l = h ! l
           \<and> entry_at h' s = build_self d ev base"
proof (cases "info_of d")
  case None
  with assms show ?thesis by (simp add: info_stage_def build_self_def)
next
  case (Some i)
  from merge_info_st_refines[OF assms(1-4), where i = i] assms(5) Some show ?thesis
    by (simp add: info_stage_def build_self_def)
qed

lemma paths_stage_refines:
  assumes "links_ok h l"
  shows "case paths_stage uc d base l h of
      (None, h') \<Rightarrow>
        (case d of
           None \<Rightarrow> links_at h' l = links_at h l
         | Some doc \<Rightarrow>
             (case paths doc of
                None \<Rightarrow> links_at h' l = links_at h l
              | Some ps \<Rightarrow> paths_loop uc base ps (links_at h l) = Inr (links_at h' l)))
    | (Some e, h') \<Rightarrow>
        (\<exists>doc ps. d = Some doc \<and> paths doc = Some ps
           \<and> paths_loop uc base ps (links_at h l) = Inl e)"
proof (cases "\<exists>doc ps. d = Some doc \<and> paths doc = Some ps")
  case True
  then obtain doc ps where dp: "d = Some doc" "paths doc = Some ps" by blast
  obtain y h' where r: "paths_loop_st uc base ps l h = (y, h')"
    by (cases "paths_loop_st uc base ps l h")
  from paths_loop_st_refines[OF assms, where uc = uc and base = base and ps = ps, unfolded r] show ?thesis
    by (cases y) (simp_all add: paths_stage_def dp r)
next
  case False
  then show ?thesis
    by (auto simp: paths_stage_def split: option.splits)
qed

lemma build_links_st_refines:
  assumes "build_links_st w h = (r, h')"
  shows "build_links w = map_sum id (links_at h') r"
proof (cases "swaggerDoc w")
  case (Inl e)
  with assms show ?thesis by (auto simp: build_links_st_def build_links_def)
next
  case (Inr d)
  show ?thesis
  proof (cases "resolve_basePath d")
    case (Inl e)
    with Inr assms show ?thesis by (auto simp: build_links_st_def build_links_def)
  next
    case base: (Inr base)
    define n where "n = length h"
    define l where "l = Suc n"
    define h2 where "h2 = new_links d (env w) base h"
    note nl = new_links_refines[of d "env w" base h, folded h2_def n_def l_def]
    have "\<exists>h3. info_stage d l h2 = (None, h3) \<and> length h3 = length h2 \<and> h3 ! l = h2 ! l
           \<and> entry_at h3 n = build_self d (env w) base"
      using nl by (intro info_stage_refines) (simp_all add: l_def)
    then obtain h3 where h3: "info_stage d l h2 = (None, h3)" "length h3 = length h2"
      "h3 ! l = h2 ! l" "entry_at h3 n = build_self d (env w) base"
      by blast
    have ok: "links_ok h3 l"
      using nl h3(2,3) by (simp add: links_ok_def l_def)
    have la: "links_at h3 l = [(''self'', build_self d (env w) base)]"
      using nl(1) h3(3,4) by (simp add: links_at_def map_vals_def entry_of_def)
    obtain y h4 where o: "paths_stage (unicode_upper w) d base l h3 = (y, h4)"
      by (cases "paths_stage (unicode_upper w) d base l h3")
    note ps = paths_stage_refines[OF ok, where uc = "unicode_upper w" and d = d and base = base,
        unfolded o la]
    have run: "build_links_st w h = (case y of Some e \<Rightarrow> Inl e | None \<Rightarrow> Inr l, h4)"
      using Inr base h3(1) o
      by (cases y) (simp_all add: build_links_st_def h2_def l_def n_def)
    show ?thesis
    proof (cases y)
      case None
      with run assms have r: "r = Inr l" "h' = h4" by simp_all
      from ps None show ?thesis
        by (auto simp: r build_links_def Inr base split: option.splits)
    next
      case (Some e)
      with run assms have r: "r = Inl e" "h' = h4" by simp_all
      from ps Some show ?thesis
        by (auto simp: r build_links_def Inr base)
    qed
  qed
qed

lemma entrypoint_st_refines: "fst (entrypoint_st w res h) = entrypoint w res"
proof -
  obtain r h1 where b: "build_links_st w h = (r, h1)"
    by (cases "build_links_st w h")
  from build_links_st_refines[OF b] b show ?thesis
    by (cases r) (auto simp: entrypoint_st_def entrypoint_def split: sum.splits)
qed

lemma entrypoint_st_frame: "take (length h) (snd (entrypoint_st w res h)) = h"
proof -
  obtain r h1 where b: "build_links_st w h = (r, h1)"
    by (cases "build_links_st w h")
  from build_links_st_frame[OF b] b show ?thesis
    by (cases r) (auto simp: entrypoint_st_def split: sum.splits)
qed

lemma entrypoint_world: "swaggerDoc (fst (entrypoint w res)) = swaggerDoc w"
  by (simp add: entrypoint_def split: sum.splits)

section \<open>Evaluation on concrete inputs\<close>

lemmas model_defs =
  build_links_def resolve_basePath_def first_server_url_def nonempty_def default_basePath_def
  build_self_def info_of_def info_field_def self_literal_def or_default_def
  componentName_def releaseName_def truthy_at_def obj_set_def object_prototype_keys_def
  is_array_index_def index_val_def digit_val_def
  emit_operation_def links_set_def links_set_tags_def operation_literal_def
  stripTrailingSlash_def toUpperCase_def upper_char_def lower_letters_def upper_letters_def
  error_report_def


lemmas input_defs =
  operations_def traversal_def slots_def linked_ids_def slot_id_def nonempty_def


section \<open>The claims\<close>

text \<open>
  C1. When \<open>getSwaggerDoc()\<close> returns \<open>undefined\<close>, line 14 throws: the responder logs
  one report and answers 500 with the fixed error body. On the empty object \<open>{}\<close>, with
  no identity in the environment, it answers 200 with the self link alone, every field
  at its default literal.
\<close>

theorem undefined_document_fails:
  "entrypoint (w\<lparr>swaggerDoc := Inr None\<rparr>) res =
     (w\<lparr>swaggerDoc := Inr None,
        logged := logged w @ [\<lparr>text_of = ''Entrypoint error'', exn_of = TypeError ''basePath''\<rparr>]\<rparr>,
      res\<lparr>statusCode := 500,
          headers := (headers res)(''Content-Type'' \<mapsto> ''application/json''),
          body := Some (JObj [(''error'', JStr ''Internal Server Error''),
                              (''message'', JStr ''Unable to generate entrypoint response'')])\<rparr>,
      None)
   \<and> entrypoint (w\<lparr>swaggerDoc := Inr (Some \<lparr>servers = None, basePath = None, info = None, paths = None\<rparr>),
                    env := \<lparr>COMPONENT_NAME = None, RELEASE_NAME = None\<rparr>\<rparr>) res =
     (w\<lparr>swaggerDoc := Inr (Some \<lparr>servers = None, basePath = None, info = None, paths = None\<rparr>),
        env := \<lparr>COMPONENT_NAME = None, RELEASE_NAME = None\<rparr>\<rparr>,
      res\<lparr>statusCode := 200,
          headers := (headers res)(''Content-Type'' \<mapsto> ''application/json''),
          body := Some (JObj [(''_links'', JObj [(''self'', JObj
            [(''href'', JStr ''/tmf-api/geographicAddressManagement/v4''),
             (''id'', JStr ''tmf673''),
             (''name'', JStr ''geographicaddress''),
             (''status'', JStr ''running''),
             (''version'', JStr ''4.0.1''),
             (''title'', JStr ''Geographic Address Management API''),
             (''description'', JStr []),
             (''swagger-ui'', JStr ''/tmf-api/geographicAddressManagement/v4/api-docs''),
             (''openapi'', JStr ''/tmf-api/geographicAddressManagement/v4/openapi'')])])])\<rparr>,
      None)"
  by (simp add: entrypoint_def error_body_def responseJSON_def model_defs)

text \<open>
  C2 (as stated it fails). An operation whose \<open>operationId\<close> is \<open>self\<close> is stored under the
  key of the self link and replaces it: the entry then has the four fields of an operation
  link and none of \<open>id\<close>, \<open>name\<close>, \<open>status\<close>.
\<close>

theorem operation_named_self_counterexample:
  "build_links \<lparr>swaggerDoc = Inr (Some \<lparr>servers = None, basePath = None, info = None,
       paths = Some [(''/status'', [(''get'', Some \<lparr>operationId = Some ''self'',
                        description = None, summary = None, tags = None\<rparr>)])]\<rparr>),
     env = \<lparr>COMPONENT_NAME = None, RELEASE_NAME = None\<rparr>, logged = [], unicode_upper = id\<rparr>
   = Inr [(''self'',
           [(''href'', JStr ''/tmf-api/geographicAddressManagement/v4/status''),
            (''method'', JStr ''GET''),
            (''description'', JStr []),
            (''operationId'', JStr ''self'')])]"
  by (simp add: model_defs)

text \<open>
  C2 (amended). For every document without \<open>null\<close> operation in which no operation carries
  the \<open>operationId\<close> \<open>self\<close>, the responder succeeds and the entry \<open>self\<close> of the links has
  all nine explicit fields, \<open>status\<close> being \<open>running\<close>.
\<close>

theorem self_link_fields:
  assumes "swaggerDoc w = Inr (Some doc)" "None \<notin> set (slots (operations doc))"
    and "''self'' \<notin> set (linked_ids (operations doc))"
  shows "\<exists>ls e. build_links w = Inr ls \<and> map_of ls ''self'' = Some e
           \<and> set explicit_fields \<subseteq> fst ` set e
           \<and> map_of e ''status'' = Some (JStr ''running'')"
proof -
  obtain base where base: "resolve_basePath (Some doc) = Inr base" "base \<noteq> []"
    using resolve_basePath_Some by blast
  let ?self = "build_self (Some doc) (env w) base"
  let ?ls = "emit_seq (unicode_upper w) base (operations doc) [(''self'', ?self)]"
  have 1: "build_links w = Inr ?ls"
    by (rule build_links_ok[OF assms(1,2) base(1)])
  have 2: "map_of ?ls ''self'' = Some ?self"
    using assms(3) by (simp add: emit_seq_other)
  have 3: "set explicit_fields \<subseteq> fst ` set ?self"
    by (rule build_self_has)
  have "map_of ?self ''status'' = map_of (self_literal (Some doc) (env w) base) ''status''"
    using base(2) by (simp add: build_self_explicit explicit_fields_def)
  then have 4: "map_of ?self ''status'' = Some (JStr ''running'')"
    by (simp add: self_literal_def)
  from 1 2 3 4 show ?thesis by blast
qed

theorem self_link_fields_witness:
  "\<exists>ls e. build_links
       \<lparr>swaggerDoc = Inr (Some \<lparr>servers = None, basePath = None,
           info = Some [(''status'', JStr ''retired''), (''contact'', JStr ''ops'')],
           paths = Some [(''/foo'', [(''get'', Some \<lparr>operationId = Some ''listFoo'',
                           description = None, summary = None, tags = None\<rparr>)])]\<rparr>),
        env = \<lparr>COMPONENT_NAME = None, RELEASE_NAME = None\<rparr>, logged = [], unicode_upper = id\<rparr> = Inr ls
     \<and> map_of ls ''self'' = Some e
     \<and> set explicit_fields \<subseteq> fst ` set e
     \<and> map_of e ''status'' = Some (JStr ''running'')"
  by (rule self_link_fields[where doc = "\<lparr>servers = None, basePath = None,
           info = Some [(''status'', JStr ''retired''), (''contact'', JStr ''ops'')],
           paths = Some [(''/foo'', [(''get'', Some \<lparr>operationId = Some ''listFoo'',
                           description = None, summary = None, tags = None\<rparr>)])]\<rparr>"])
     (simp_all add: input_defs)

text \<open>
  C3 (as stated it fails). The loop tests \<open>!linksObject.self[infoKey]\<close>: the explicit
  \<open>description\<close> is the empty string when \<open>info.description\<close> is falsy, and the loop then
  replaces it by \<open>info.description\<close> itself, here \<open>null\<close>.
\<close>

theorem falsy_description_counterexample:
  "map_of (self_literal
       (Some \<lparr>servers = None, basePath = None, info = Some [(''description'', JNull)],
              paths = None\<rparr>)
       \<lparr>COMPONENT_NAME = None, RELEASE_NAME = None\<rparr>
       ''/tmf-api/geographicAddressManagement/v4'') ''description'' = Some (JStr [])
   \<and> build_links \<lparr>swaggerDoc = Inr (Some \<lparr>servers = None, basePath = None,
         info = Some [(''description'', JNull)], paths = None\<rparr>),
       env = \<lparr>COMPONENT_NAME = None, RELEASE_NAME = None\<rparr>, logged = [], unicode_upper = id\<rparr>
     = Inr [(''self'',
             [(''href'', JStr ''/tmf-api/geographicAddressManagement/v4''),
              (''id'', JStr ''tmf673''),
              (''name'', JStr ''geographicaddress''),
              (''status'', JStr ''running''),
              (''version'', JStr ''4.0.1''),
              (''title'', JStr ''Geographic Address Management API''),
              (''description'', JNull),
              (''swagger-ui'', JStr ''/tmf-api/geographicAddressManagement/v4/api-docs''),
              (''openapi'', JStr ''/tmf-api/geographicAddressManagement/v4/openapi'')])]"
  by (simp add: model_defs replace_value.simps)

text \<open>
  C3 (amended). For every document whose \<open>info\<close> is an object in property order, with a
  \<open>description\<close> that is not \<open>null\<close>, \<open>false\<close> or \<open>0\<close>: the loop leaves the value of each of
  the nine explicit fields as the object literal set it; a key that is not an explicit
  field is in the self link exactly when it is a key of \<open>info\<close> and not a property name of
  \<open>Object.prototype\<close>, with the value \<open>info\<close> gives it; and these added keys stand in the
  self link in the order they have in \<open>info\<close>.
\<close>

theorem info_merge_precedence:
  assumes "info doc = Some i" "property_order (map fst i)"
    and "resolve_basePath (Some doc) = Inr base"
    and "map_of i ''description'' \<notin> {Some JNull, Some (JBool False), Some (JNum 0)}"
  shows "(\<forall>k \<in> set explicit_fields.
            map_of (build_self (Some doc) ev base) k = map_of (self_literal (Some doc) ev base) k)
     \<and> (\<forall>k. k \<notin> set explicit_fields \<longrightarrow>
            map_of (build_self (Some doc) ev base) k =
              (if k \<in> set object_prototype_keys then None else map_of i k))
     \<and> filter (\<lambda>k. k \<notin> set explicit_fields) (map fst (build_self (Some doc) ev base))
         = filter (\<lambda>k. k \<notin> set explicit_fields \<and> k \<notin> set object_prototype_keys) (map fst i)"
proof -
  define lit where "lit = self_literal (Some doc) ev base"
  have bs: "build_self (Some doc) ev base = merge_info i lit"
    unfolding lit_def by (rule build_self_Some[OF assms(1)])
  have d: "distinct (map fst i)"
    using assms(2) by (simp add: property_order_def)
  have keys: "fst ` set lit = set explicit_fields"
    unfolding lit_def by (rule self_literal_has)
  have base: "base \<noteq> []"
    by (rule base_nonempty[OF assms(3)])
  have desc: "map_of lit ''description'' = Some (or_default (map_of i ''description'') (JStr []))"
    unfolding lit_def by (simp add: self_literal_def info_field_Some[OF assms(1)])
  have 1: "map_of (merge_info i lit) k = map_of lit k" if k: "k \<in> set explicit_fields" for k
  proof (cases "k = ''description''")
    case False
    have "map_of (build_self (Some doc) ev base) k = map_of lit k"
      unfolding lit_def by (rule build_self_explicit[OF base k False])
    then show ?thesis by (simp only: bs)
  next
    case True
    show ?thesis
    proof (cases "map_of i ''description''")
      case None
      then show ?thesis
        by (simp add: True merge_info_lookup[OF d] desc)
    next
      case (Some v)
      show ?thesis
      proof (cases "truthy v")
        case t: True
        then show ?thesis
          by (simp add: True merge_info_lookup[OF d] desc Some truthy_at_def or_default_def)
      next
        case f: False
        with assms(4) Some have "v = JStr []"
          by (auto simp: falsy_cases)
        then show ?thesis
          by (simp add: True merge_info_lookup[OF d] desc Some truthy_at_def or_default_def)
      qed
    qed
  qed
  have 2: "map_of (merge_info i lit) k =
              (if k \<in> set object_prototype_keys then None else map_of i k)"
    if k: "k \<notin> set explicit_fields" for k
  proof -
    have "map_of lit k = None"
      using k keys by (intro map_of_absent) simp
    then show ?thesis
      by (simp add: merge_info_lookup[OF d] truthy_at_def split: option.splits)
  qed
  have ni: "\<forall>e \<in> fst ` set lit. \<not> is_array_index e"
    unfolding keys by (rule explicit_not_index)
  have ne: "lit \<noteq> []"
    unfolding lit_def by (simp add: self_literal_def)
  have 3: "filter (\<lambda>k. k \<notin> set explicit_fields) (map fst (merge_info i lit))
         = filter (\<lambda>k. k \<notin> set explicit_fields \<and> k \<notin> set object_prototype_keys) (map fst i)"
    using merge_info_order[OF ni ne assms(2)] unfolding keys .
  show ?thesis
    unfolding bs lit_def[symmetric]
  proof (intro conjI ballI allI impI)
    fix k assume "k \<in> set explicit_fields"
    then show "map_of (merge_info i lit) k = map_of lit k" by (rule 1)
  next
    fix k assume "k \<notin> set explicit_fields"
    then show "map_of (merge_info i lit) k =
              (if k \<in> set object_prototype_keys then None else map_of i k)" by (rule 2)
  next
    show "filter (\<lambda>k. k \<notin> set explicit_fields) (map fst (merge_info i lit))
         = filter (\<lambda>k. k \<notin> set explicit_fields \<and> k \<notin> set object_prototype_keys) (map fst i)"
      by (rule 3)
  qed
qed

theorem info_merge_precedence_witness:
  "map_of (build_self
       (Some \<lparr>servers = None, basePath = Some ''/b'',
              info = Some [(''7'', JStr ''q''), (''description'', JStr ''A service''),
                           (''status'', JStr ''X''), (''x-owner'', JStr ''team''),
                           (''constructor'', JStr ''c'')],
              paths = None\<rparr>)
       \<lparr>COMPONENT_NAME = None, RELEASE_NAME = None\<rparr> ''/b'') ''status''
     = Some (JStr ''running'')
   \<and> map_of (build_self
       (Some \<lparr>servers = None, basePath = Some ''/b'',
              info = Some [(''7'', JStr ''q''), (''description'', JStr ''A service''),
                           (''status'', JStr ''X''), (''x-owner'', JStr ''team''),
                           (''constructor'', JStr ''c'')],
              paths = None\<rparr>)
       \<lparr>COMPONENT_NAME = None, RELEASE_NAME = None\<rparr> ''/b'') ''x-owner''
     = Some (JStr ''team'')
   \<and> filter (\<lambda>k. k \<notin> set explicit_fields)
        (map fst (build_self
          (Some \<lparr>servers = None, basePath = Some ''/b'',
              info = Some [(''7'', JStr ''q''), (''description'', JStr ''A service''),
                           (''status'', JStr ''X''), (''x-owner'', JStr ''team''),
                           (''constructor'', JStr ''c'')],
              paths = None\<rparr>)
          \<lparr>COMPONENT_NAME = None, RELEASE_NAME = None\<rparr> ''/b''))
     = [''7'', ''x-owner'']"
proof -
  let ?i = "[(''7'', JStr ''q''), (''description'', JStr ''A service''),
             (''status'', JStr ''X''), (''x-owner'', JStr ''team''),
             (''constructor'', JStr ''c'')]"
  let ?doc = "\<lparr>servers = None, basePath = Some ''/b'', info = Some ?i, paths = None\<rparr>"
  let ?ev = "\<lparr>COMPONENT_NAME = None, RELEASE_NAME = None\<rparr>"
  have h1: "info ?doc = Some ?i" by simp
  have h2: "property_order (map fst ?i)"
    by (simp add: property_order_def key_before_def is_array_index_def index_val_def
                  digit_val_def)
  have h3: "resolve_basePath (Some ?doc) = Inr ''/b''"
    by (simp add: resolve_basePath_def first_server_url_def nonempty_def)
  have h4: "map_of ?i ''description'' \<notin> {Some JNull, Some (JBool False), Some (JNum 0)}"
    by simp
  note t = info_merge_precedence[OF h1 h2 h3 h4, of ?ev]
  have a: "map_of (build_self (Some ?doc) ?ev ''/b'') ''status'' = Some (JStr ''running'')"
    using t[THEN conjunct1, THEN bspec, of "''status''"]
    by (simp add: explicit_fields_def self_literal_def)
  have b: "map_of (build_self (Some ?doc) ?ev ''/b'') ''x-owner'' = Some (JStr ''team'')"
    using t[THEN conjunct2, THEN conjunct1, THEN spec, of "''x-owner''"]
    by (simp add: explicit_fields_def object_prototype_keys_def)
  have c: "filter (\<lambda>k. k \<notin> set explicit_fields) (map fst (build_self (Some ?doc) ?ev ''/b''))
     = [''7'', ''x-owner'']"
    using t[THEN conjunct2, THEN conjunct2]
    by (simp add: explicit_fields_def object_prototype_keys_def)
  show ?thesis
  proof (intro conjI)
    show "map_of (build_self (Some ?doc) ?ev ''/b'') ''status'' = Some (JStr ''running'')"
      by (rule a)
    show "map_of (build_self (Some ?doc) ?ev ''/b'') ''x-owner'' = Some (JStr ''team'')"
      by (rule b)
    show "filter (\<lambda>k. k \<notin> set explicit_fields) (map fst (build_self (Some ?doc) ?ev ''/b''))
     = [''7'', ''x-owner'']"
      by (rule c)
  qed
qed

text \<open>
  C4 (as stated it fails). A \<open>basePath\<close> that is present but empty is falsy: the resolved
  base path is the default constant, not \<open>basePath\<close>.
\<close>

theorem empty_basePath_counterexample:
  "basePath \<lparr>servers = None, basePath = Some [], info = None, paths = None\<rparr> = Some []
   \<and> resolve_basePath (Some \<lparr>servers = None, basePath = Some [], info = None, paths = None\<rparr>)
       = Inr ''/tmf-api/geographicAddressManagement/v4''"
  by (simp add: model_defs)

text \<open>
  C4 (amended). For a document that is present: when \<open>servers\<close> is a non-empty sequence whose
  first entry has a non-empty \<open>url\<close>, the resolved base path is that \<open>url\<close>; otherwise, when
  \<open>basePath\<close> is present and non-empty, it is \<open>basePath\<close>; otherwise it is the default
  constant.
\<close>

theorem base_path_fallback:
  "(servers doc = Some (s # ss) \<and> url s = Some u \<and> u \<noteq> [] \<longrightarrow>
      resolve_basePath (Some doc) = Inr u)
   \<and> (\<not> (\<exists>s ss u. servers doc = Some (s # ss) \<and> url s = Some u \<and> u \<noteq> [])
        \<and> basePath doc = Some b \<and> b \<noteq> [] \<longrightarrow>
      resolve_basePath (Some doc) = Inr b)
   \<and> (\<not> (\<exists>s ss u. servers doc = Some (s # ss) \<and> url s = Some u \<and> u \<noteq> [])
        \<and> (basePath doc = None \<or> basePath doc = Some []) \<longrightarrow>
      resolve_basePath (Some doc) = Inr ''/tmf-api/geographicAddressManagement/v4'')"
  by (auto simp: resolve_basePath_def first_server_url_def nonempty_def default_basePath_def
           split: option.splits list.splits)

theorem base_path_fallback_witness:
  "resolve_basePath (Some \<lparr>servers = Some [\<lparr>url = Some ''https://api.example.org/v4''\<rparr>],
                           basePath = Some ''/legacy'', info = None, paths = None\<rparr>)
     = Inr ''https://api.example.org/v4''
   \<and> resolve_basePath (Some \<lparr>servers = Some [], basePath = Some ''/legacy'', info = None,
                               paths = None\<rparr>)
     = Inr ''/legacy''
   \<and> resolve_basePath (Some \<lparr>servers = Some [\<lparr>url = Some []\<rparr>], basePath = None, info = None,
                               paths = None\<rparr>)
     = Inr ''/tmf-api/geographicAddressManagement/v4''"
  using
    base_path_fallback[of
      "\<lparr>servers = Some [\<lparr>url = Some ''https://api.example.org/v4''\<rparr>],
        basePath = Some ''/legacy'', info = None, paths = None\<rparr>"
      "\<lparr>url = Some ''https://api.example.org/v4''\<rparr>" "[]" "''https://api.example.org/v4''"]
    base_path_fallback[of
      "\<lparr>servers = Some [], basePath = Some ''/legacy'', info = None, paths = None\<rparr>"
      _ _ _ "''/legacy''"]
    base_path_fallback[of
      "\<lparr>servers = Some [\<lparr>url = Some []\<rparr>], basePath = None, info = None, paths = None\<rparr>"]
  by simp

text \<open>
  C5 (as stated it fails). With a base path ending in two separators, the single pass of
  \<open>cleanPath\<close> leaves a doubled separator in both tooling links, and \<open>stripTrailingSlash\<close>
  removes one separator only, so the operation link has a doubled separator at the join.
\<close>

theorem doubled_separator_counterexample:
  "build_links \<lparr>swaggerDoc = Inr (Some \<lparr>servers = None, basePath = Some ''/api//'', info = None,
       paths = Some [(''/foo'', [(''get'', Some \<lparr>operationId = Some ''listFoo'',
                        description = None, summary = None, tags = None\<rparr>)])]\<rparr>),
     env = \<lparr>COMPONENT_NAME = None, RELEASE_NAME = None\<rparr>, logged = [], unicode_upper = id\<rparr>
   = Inr [(''self'',
           [(''href'', JStr ''/api//''),
            (''id'', JStr ''tmf673''),
            (''name'', JStr ''geographicaddress''),
            (''status'', JStr ''running''),
            (''version'', JStr ''4.0.1''),
            (''title'', JStr ''Geographic Address Management API''),
            (''description'', JStr []),
            (''swagger-ui'', JStr ''/api//api-docs''),
            (''openapi'', JStr ''/api//openapi'')]),
          (''listFoo'',
           [(''href'', JStr ''/api//foo''),
            (''method'', JStr ''GET''),
            (''description'', JStr []),
            (''operationId'', JStr ''listFoo'')])]
   \<and> has_double ''/api//api-docs'' \<and> has_double ''/api//openapi''
   \<and> stripTrailingSlash ''/api//'' = ''/api/'' \<and> double_at_join ''/api/'' ''/foo''"
  by (simp add: model_defs double_at_join_def)

text \<open>
  C5 (amended). The two tooling links of the self link are \<open>cleanPath\<close> of the base path
  followed by \<open>/api-docs\<close> and \<open>/openapi\<close>; they contain a doubled separator exactly when the
  base path has three adjacent separators or ends in two. The \<open>href\<close> of an operation link
  is the stripped base path followed by the path key; when the base path does not end in
  two separators and is not the single separator, there is no doubled separator at the
  join.
\<close>

theorem separators_at_joins:
  "map_of (build_self d ev base) ''swagger-ui'' = Some (JStr (cleanPath (base @ ''/api-docs'')))
   \<and> map_of (build_self d ev base) ''openapi'' = Some (JStr (cleanPath (base @ ''/openapi'')))
   \<and> (has_double (cleanPath (base @ ''/api-docs'')) \<longleftrightarrow> has_triple base \<or> ends_double base)
   \<and> (has_double (cleanPath (base @ ''/openapi'')) \<longleftrightarrow> has_triple base \<or> ends_double base)
   \<and> map_of (operation_literal uc base pathKey methodKey op oid) ''href''
       = Some (JStr (stripTrailingSlash base @ pathKey))
   \<and> (\<not> ends_double base \<and> base \<noteq> ''/'' \<longrightarrow>
        \<not> double_at_join (stripTrailingSlash base) pathKey)"
proof (intro conjI impI)
  show "map_of (build_self d ev base) ''swagger-ui'' = Some (JStr (cleanPath (base @ ''/api-docs'')))"
    by (simp add: tooling_link_kept self_literal_def)
  show "map_of (build_self d ev base) ''openapi'' = Some (JStr (cleanPath (base @ ''/openapi'')))"
    by (simp add: tooling_link_kept self_literal_def)
  show "has_double (cleanPath (base @ ''/api-docs'')) \<longleftrightarrow> has_triple base \<or> ends_double base"
    by (rule has_triple_tooling) simp_all
  show "has_double (cleanPath (base @ ''/openapi'')) \<longleftrightarrow> has_triple base \<or> ends_double base"
    by (rule has_triple_tooling) simp_all
  show "map_of (operation_literal uc base pathKey methodKey op oid) ''href''
       = Some (JStr (stripTrailingSlash base @ pathKey))"
    by (simp add: operation_literal_def)
next
  assume "\<not> ends_double base \<and> base \<noteq> ''/''"
  then show "\<not> double_at_join (stripTrailingSlash base) pathKey"
    by (intro stripped_join) simp_all
qed

theorem separators_at_joins_witness:
  "cleanPath (''/api/'' @ ''/api-docs'') = ''/api/api-docs''
   \<and> \<not> has_double (cleanPath (''/api/'' @ ''/api-docs''))
   \<and> cleanPath (''/api/'' @ ''/openapi'') = ''/api/openapi''
   \<and> \<not> has_double (cleanPath (''/api/'' @ ''/openapi''))
   \<and> stripTrailingSlash ''/api/'' @ ''/foo'' = ''/api/foo''
   \<and> \<not> double_at_join (stripTrailingSlash ''/api/'') ''/foo''"
  using separators_at_joins[where base = "''/api/''" and pathKey = "''/foo''"]
  by (simp add: ends_double_def stripTrailingSlash_def)

text \<open>
  C6 (as stated it fails). Assigning under the key \<open>__proto__\<close> sets the prototype of
  \<open>linksObject\<close> and creates no property: an operation with that \<open>operationId\<close> yields no
  link.
\<close>

theorem proto_operation_counterexample:
  "build_links \<lparr>swaggerDoc = Inr (Some \<lparr>servers = None, basePath = None, info = None,
       paths = Some [(''/x'', [(''get'', Some \<lparr>operationId = Some ''__proto__'',
                        description = None, summary = None, tags = Some [''a'']\<rparr>)])]\<rparr>),
     env = \<lparr>COMPONENT_NAME = None, RELEASE_NAME = None\<rparr>, logged = [], unicode_upper = id\<rparr>
   = Inr [(''self'',
           [(''href'', JStr ''/tmf-api/geographicAddressManagement/v4''),
            (''id'', JStr ''tmf673''),
            (''name'', JStr ''geographicaddress''),
            (''status'', JStr ''running''),
            (''version'', JStr ''4.0.1''),
            (''title'', JStr ''Geographic Address Management API''),
            (''description'', JStr []),
            (''swagger-ui'', JStr ''/tmf-api/geographicAddressManagement/v4/api-docs''),
            (''openapi'', JStr ''/tmf-api/geographicAddressManagement/v4/openapi'')])]"
  by (simp add: model_defs)

text \<open>
  C6 (amended). For every document without \<open>null\<close> operation the responder succeeds, and in
  its links: each \<open>operationId\<close> other than \<open>__proto__\<close> that passes the test of line 52 names
  exactly one link; the link names are \<open>self\<close> and those \<open>operationId\<close>s, nothing else, so
  operations without \<open>operationId\<close> yield no link; and the content under an \<open>operationId\<close> is
  the link of the last operation of the traversal that carries it.
\<close>

theorem operation_links:
  assumes "swaggerDoc w = Inr (Some doc)" "None \<notin> set (slots (operations doc))"
    and "resolve_basePath (Some doc) = Inr base"
  shows "\<exists>ls. build_links w = Inr ls
      \<and> (\<forall>oid \<in> set (linked_ids (operations doc)).
            oid \<noteq> ''__proto__'' \<longrightarrow> count_list (map fst ls) oid = 1)
      \<and> fst ` set ls = insert ''self'' (set (linked_ids (operations doc)) - {''__proto__''})
      \<and> length ls = card (insert ''self'' (set (linked_ids (operations doc)) - {''__proto__''}))
      \<and> (\<forall>pre pk mk op post oid.
            operations doc = pre @ (pk, mk, Some op) # post
            \<and> nonempty (operationId op) = Some oid \<and> oid \<noteq> ''__proto__''
            \<and> oid \<notin> set (linked_ids post)
            \<longrightarrow> map_of ls oid = map_of (emit_operation (unicode_upper w) base pk mk op []) oid)"
proof -
  define self where "self = build_self (Some doc) (env w) base"
  define ls where "ls = emit_seq (unicode_upper w) base (operations doc) [(''self'', self)]"
  define ids where "ids = linked_ids (operations doc)"
  have 1: "build_links w = Inr ls"
    unfolding ls_def self_def by (rule build_links_ok[OF assms])
  have d: "distinct (map fst ls)"
    unfolding ls_def by (rule emit_seq_distinct) simp
  have k: "fst ` set ls = insert ''self'' (set ids - {''__proto__''})"
    unfolding ls_def ids_def emit_seq_keys by simp
  have 2: "\<forall>oid \<in> set ids. oid \<noteq> ''__proto__'' \<longrightarrow> count_list (map fst ls) oid = 1"
  proof (intro ballI impI)
    fix oid assume "oid \<in> set ids" "oid \<noteq> ''__proto__''"
    then have "oid \<in> fst ` set ls" unfolding k by blast
    then have "oid \<in> set (map fst ls)" by simp
    with d show "count_list (map fst ls) oid = 1" by (rule count_list_distinct)
  qed
  have "length ls = length (map fst ls)" by simp
  also have "\<dots> = card (set (map fst ls))"
    using d by (simp only: distinct_card)
  also have "set (map fst ls) = fst ` set ls" by simp
  finally have 3: "length ls = card (insert ''self'' (set ids - {''__proto__''}))"
    by (simp only: k)
  have 4: "\<forall>pre pk mk op post oid.
            operations doc = pre @ (pk, mk, Some op) # post
            \<and> nonempty (operationId op) = Some oid \<and> oid \<noteq> ''__proto__''
            \<and> oid \<notin> set (linked_ids post)
            \<longrightarrow> map_of ls oid = map_of (emit_operation (unicode_upper w) base pk mk op []) oid"
  proof (intro allI impI, elim conjE)
    fix pre pk mk op post oid
    assume a: "operations doc = pre @ (pk, mk, Some op) # post"
      "nonempty (operationId op) = Some oid" "oid \<noteq> ''__proto__''"
      "oid \<notin> set (linked_ids post)"
    have "map_of ls oid = Some (operation_literal (unicode_upper w) base pk mk op oid @ link_tags op)"
      unfolding ls_def a(1) by (rule emit_seq_last[OF a(2-4)])
    also have "\<dots> = map_of (emit_operation (unicode_upper w) base pk mk op []) oid"
      using a(2,3) by (simp add: emit_operation_lookup)
    finally show "map_of ls oid = map_of (emit_operation (unicode_upper w) base pk mk op []) oid" .
  qed
  show ?thesis
    using 1 2 k 3 4 unfolding ids_def by (intro exI[of _ ls] conjI)
qed

theorem operation_links_witness:
  "\<exists>ls. build_links
       \<lparr>swaggerDoc = Inr (Some \<lparr>servers = None, basePath = Some ''/api'', info = None,
           paths = Some
             [(''/a'', [(''get'', Some \<lparr>operationId = Some ''dup'', description = Some ''first'',
                                        summary = None, tags = None\<rparr>),
                        (''post'', Some \<lparr>operationId = None, description = Some ''unnamed'',
                                         summary = None, tags = None\<rparr>)]),
              (''/b'', [(''get'', Some \<lparr>operationId = Some ''dup'', description = Some ''second'',
                                        summary = None, tags = None\<rparr>)])]\<rparr>),
        env = \<lparr>COMPONENT_NAME = None, RELEASE_NAME = None\<rparr>, logged = [], unicode_upper = id\<rparr> = Inr ls
     \<and> count_list (map fst ls) ''dup'' = 1
     \<and> fst ` set ls = {''self'', ''dup''}
     \<and> length ls = 2
     \<and> map_of ls ''dup'' =
         Some [(''href'', JStr ''/api/b''), (''method'', JStr ''GET''),
               (''description'', JStr ''second''), (''operationId'', JStr ''dup'')]"
proof -
  let ?doc = "\<lparr>servers = None, basePath = Some ''/api'', info = None,
           paths = Some
             [(''/a'', [(''get'', Some \<lparr>operationId = Some ''dup'', description = Some ''first'',
                                        summary = None, tags = None\<rparr>),
                        (''post'', Some \<lparr>operationId = None, description = Some ''unnamed'',
                                         summary = None, tags = None\<rparr>)]),
              (''/b'', [(''get'', Some \<lparr>operationId = Some ''dup'', description = Some ''second'',
                                        summary = None, tags = None\<rparr>)])]\<rparr>"
  let ?w = "\<lparr>swaggerDoc = Inr (Some ?doc),
        env = \<lparr>COMPONENT_NAME = None, RELEASE_NAME = None\<rparr>, logged = [], unicode_upper = id\<rparr>"
  have ops: "operations ?doc =
      [(''/a'', ''get'', Some \<lparr>operationId = Some ''dup'', description = Some ''first'',
                                        summary = None, tags = None\<rparr>),
       (''/a'', ''post'', Some \<lparr>operationId = None, description = Some ''unnamed'',
                                         summary = None, tags = None\<rparr>)]
      @ (''/b'', ''get'', Some \<lparr>operationId = Some ''dup'', description = Some ''second'',
                                        summary = None, tags = None\<rparr>) # []"
    by (simp add: input_defs)
  have ids: "linked_ids (operations ?doc) = [''dup'', ''dup'']"
    by (simp add: input_defs)
  have h1: "swaggerDoc ?w = Inr (Some ?doc)" by simp
  have h2: "None \<notin> set (slots (operations ?doc))" by (simp add: input_defs)
  have h3: "resolve_basePath (Some ?doc) = Inr ''/api''" by (simp add: model_defs)
  from operation_links[OF h1 h2 h3] show ?thesis
  proof (elim exE conjE)
    fix ls
    assume 1: "build_links ?w = Inr ls"
      and 2: "\<forall>oid \<in> set (linked_ids (operations ?doc)).
            oid \<noteq> ''__proto__'' \<longrightarrow> count_list (map fst ls) oid = 1"
      and 3: "fst ` set ls = insert ''self'' (set (linked_ids (operations ?doc)) - {''__proto__''})"
      and 4: "length ls = card (insert ''self'' (set (linked_ids (operations ?doc)) - {''__proto__''}))"
      and 5: "\<forall>pre pk mk op post oid.
            operations ?doc = pre @ (pk, mk, Some op) # post
            \<and> nonempty (operationId op) = Some oid \<and> oid \<noteq> ''__proto__''
            \<and> oid \<notin> set (linked_ids post)
            \<longrightarrow> map_of ls oid = map_of (emit_operation (unicode_upper ?w) ''/api'' pk mk op []) oid"
    have a: "count_list (map fst ls) ''dup'' = 1"
      using 2 by (simp add: ids)
    have b: "fst ` set ls = {''self'', ''dup''}"
      using 3 by (simp add: ids)
    have c: "length ls = 2"
      using 4 by (simp add: ids)
    have "map_of ls ''dup'' = map_of (emit_operation (unicode_upper ?w) ''/api'' ''/b'' ''get''
           \<lparr>operationId = Some ''dup'', description = Some ''second'',
             summary = None, tags = None\<rparr> []) ''dup''"
      using 5[rule_format, of
          "[(''/a'', ''get'', Some \<lparr>operationId = Some ''dup'', description = Some ''first'',
                                        summary = None, tags = None\<rparr>),
            (''/a'', ''post'', Some \<lparr>operationId = None, description = Some ''unnamed'',
                                         summary = None, tags = None\<rparr>)]"
          "''/b''" "''get''"
          "\<lparr>operationId = Some ''dup'', description = Some ''second'',
            summary = None, tags = None\<rparr>" "[]" "''dup''"]
      by (simp add: input_defs)
    then have d: "map_of ls ''dup'' =
         Some [(''href'', JStr ''/api/b''), (''method'', JStr ''GET''),
               (''description'', JStr ''second''), (''operationId'', JStr ''dup'')]"
      by (simp add: model_defs)
    show ?thesis
    proof (intro exI[of _ ls] conjI)
      show "build_links ?w = Inr ls" by (rule 1)
      show "count_list (map fst ls) ''dup'' = 1" by (rule a)
      show "fst ` set ls = {''self'', ''dup''}" by (rule b)
      show "length ls = 2" by (rule c)
      show "map_of ls ''dup'' =
         Some [(''href'', JStr ''/api/b''), (''method'', JStr ''GET''),
               (''description'', JStr ''second''), (''operationId'', JStr ''dup'')]" by (rule d)
    qed
  qed
qed

text \<open>
  C7 (as stated it fails). When \<open>getSwaggerDoc\<close> throws \<open>null\<close>, the handler throws in turn,
  reading \<open>message\<close> of \<open>null\<close> on line 80: that \<open>TypeError\<close> leaves the responder, the logger
  has received no report and the response is as it was, without status 500 and without
  body.
\<close>

theorem thrown_null_counterexample:
  "build_links \<lparr>swaggerDoc = Inl Nullish,
                 env = \<lparr>COMPONENT_NAME = None, RELEASE_NAME = None\<rparr>, logged = [],
                 unicode_upper = id\<rparr> = Inl Nullish
   \<and> entrypoint \<lparr>swaggerDoc = Inl Nullish,
                  env = \<lparr>COMPONENT_NAME = None, RELEASE_NAME = None\<rparr>, logged = [],
                  unicode_upper = id\<rparr>
                 \<lparr>statusCode = 200, headers = Map.empty, body = None\<rparr> =
       (\<lparr>swaggerDoc = Inl Nullish,
         env = \<lparr>COMPONENT_NAME = None, RELEASE_NAME = None\<rparr>, logged = [],
         unicode_upper = id\<rparr>,
        \<lparr>statusCode = 200, headers = Map.empty, body = None\<rparr>,
        Some (TypeError ''message''))"
  by (simp add: entrypoint_def build_links_def error_report_def)

text \<open>
  C7 (amended). Something is thrown inside the \<open>try\<close> block exactly when \<open>getSwaggerDoc\<close>
  throws, or returns \<open>undefined\<close>, or an operation slot holds \<open>null\<close>. When what is thrown is
  a value whose message and stack can be read (any value other than \<open>null\<close> and \<open>undefined\<close>
  whose \<open>message\<close> and \<open>stack\<close> are no accessors that throw, so every error object and the
  \<open>TypeError\<close> of the engine), the responder returns and throws nothing: the logger has
  received exactly one more report, carrying what was thrown, the status is 500 and the
  body is the fixed error document.
\<close>

theorem construction_fault:
  "(build_links w = Inl e \<longleftrightarrow>
      swaggerDoc w = Inl e
      \<or> (swaggerDoc w = Inr None \<and> e = TypeError ''basePath'')
      \<or> (\<exists>doc. swaggerDoc w = Inr (Some doc) \<and> None \<in> set (slots (operations doc))
            \<and> e = TypeError ''operationId''))
   \<and> (build_links w = Inl e \<and> e \<noteq> Nullish \<and> (\<forall>x. e \<noteq> Unreadable x) \<longrightarrow>
        entrypoint w res =
          (w\<lparr>logged := logged w @ [\<lparr>text_of = ''Entrypoint error'', exn_of = e\<rparr>]\<rparr>,
           res\<lparr>statusCode := 500,
               headers := (headers res)(''Content-Type'' \<mapsto> ''application/json''),
               body := Some (JObj [(''error'', JStr ''Internal Server Error''),
                                   (''message'', JStr ''Unable to generate entrypoint response'')])\<rparr>,
           None))"
  using build_links_fault_iff[of w e]
  by (cases e) (auto simp: entrypoint_def error_body_def error_report_def)

theorem construction_fault_witness:
  "entrypoint \<lparr>swaggerDoc = Inl (Thrown (Some (JStr ''ENOENT: no such file''))
                                         (Some (JStr ''Error: ENOENT at getSwaggerDoc''))),
               env = \<lparr>COMPONENT_NAME = None, RELEASE_NAME = None\<rparr>, logged = [],
               unicode_upper = id\<rparr>
              \<lparr>statusCode = 200, headers = Map.empty, body = None\<rparr> =
     (\<lparr>swaggerDoc = Inl (Thrown (Some (JStr ''ENOENT: no such file''))
                                (Some (JStr ''Error: ENOENT at getSwaggerDoc''))),
       env = \<lparr>COMPONENT_NAME = None, RELEASE_NAME = None\<rparr>,
       logged = [\<lparr>text_of = ''Entrypoint error'',
                  exn_of = Thrown (Some (JStr ''ENOENT: no such file''))
                                  (Some (JStr ''Error: ENOENT at getSwaggerDoc''))\<rparr>],
       unicode_upper = id\<rparr>,
      \<lparr>statusCode = 500,
       headers = [''Content-Type'' \<mapsto> ''application/json''],
       body = Some (JObj [(''error'', JStr ''Internal Server Error''),
                          (''message'', JStr ''Unable to generate entrypoint response'')])\<rparr>,
      None)"
  using construction_fault[of
      "\<lparr>swaggerDoc = Inl (Thrown (Some (JStr ''ENOENT: no such file''))
                                (Some (JStr ''Error: ENOENT at getSwaggerDoc''))),
        env = \<lparr>COMPONENT_NAME = None, RELEASE_NAME = None\<rparr>, logged = [],
        unicode_upper = id\<rparr>"
      "Thrown (Some (JStr ''ENOENT: no such file'')) (Some (JStr ''Error: ENOENT at getSwaggerDoc''))"
      "\<lparr>statusCode = 200, headers = Map.empty, body = None\<rparr>"]
  by simp

text \<open>
  C8. For every document without \<open>null\<close> operation the responder succeeds, and the link of
  an operation that is the last of the traversal with its \<open>operationId\<close> (other than
  \<open>__proto__\<close>) is: \<open>href\<close>, the stripped base path followed by the path key; \<open>method\<close>, the
  method key upper-cased, whatever its casing (for a key of ASCII characters that is the
  key with \<open>a\<close> to \<open>z\<close> replaced by \<open>A\<close> to \<open>Z\<close>, no lower-case letter is left; for another key
  it is what the upper-casing of the engine gives);
  \<open>description\<close>, the operation's non-empty \<open>description\<close>, else its \<open>summary\<close>, else the
  empty string; \<open>operationId\<close>; and \<open>tags\<close>, there exactly when the operation has at least
  one tag, carrying the tags as they are. The \<open>/foo\<close> scenario of the specification gives
  the link \<open>listFoo\<close> stated there.
\<close>

theorem operation_link_fields:
  "(swaggerDoc w = Inr (Some doc) \<and> None \<notin> set (slots (operations doc))
      \<and> resolve_basePath (Some doc) = Inr base
      \<and> operations doc = pre @ (pathKey, methodKey, Some op) # post
      \<and> nonempty (operationId op) = Some oid \<and> oid \<noteq> ''__proto__''
      \<and> oid \<notin> set (linked_ids post)
    \<longrightarrow> (\<exists>ls. build_links w = Inr ls
          \<and> map_of ls oid =
              Some ([(''href'', JStr (stripTrailingSlash base @ pathKey)),
                     (''method'', JStr (toUpperCase (unicode_upper w) methodKey)),
                     (''description'',
                        JStr (case description op of
                                Some (c # cs) \<Rightarrow> c # cs
                              | _ \<Rightarrow> (case summary op of Some t \<Rightarrow> t | None \<Rightarrow> []))),
                     (''operationId'', JStr oid)]
                    @ (case tags op of
                         None \<Rightarrow> []
                       | Some ts \<Rightarrow> if ts = [] then [] else [(''tags'', JArr (map JStr ts))]))))
   \<and> (is_ascii methodKey \<longrightarrow>
        toUpperCase (unicode_upper w) methodKey = map upper_char methodKey
        \<and> set (toUpperCase (unicode_upper w) methodKey) \<inter> set lower_letters = {})
   \<and> (\<not> is_ascii methodKey \<longrightarrow>
        toUpperCase (unicode_upper w) methodKey = unicode_upper w methodKey)
   \<and> build_links
        \<lparr>swaggerDoc = Inr (Some \<lparr>servers = None, basePath = None, info = None,
            paths = Some [(''/foo'', [(''get'', Some \<lparr>operationId = Some ''listFoo'',
                            description = None, summary = None, tags = Some [''a'']\<rparr>)])]\<rparr>),
         env = \<lparr>COMPONENT_NAME = None, RELEASE_NAME = None\<rparr>, logged = [], unicode_upper = id\<rparr>
     = Inr [(''self'',
             [(''href'', JStr ''/tmf-api/geographicAddressManagement/v4''),
              (''id'', JStr ''tmf673''),
              (''name'', JStr ''geographicaddress''),
              (''status'', JStr ''running''),
              (''version'', JStr ''4.0.1''),
              (''title'', JStr ''Geographic Address Management API''),
              (''description'', JStr []),
              (''swagger-ui'', JStr ''/tmf-api/geographicAddressManagement/v4/api-docs''),
              (''openapi'', JStr ''/tmf-api/geographicAddressManagement/v4/openapi'')]),
            (''listFoo'',
             [(''href'', JStr ''/tmf-api/geographicAddressManagement/v4/foo''),
              (''method'', JStr ''GET''),
              (''description'', JStr []),
              (''operationId'', JStr ''listFoo''),
              (''tags'', JArr [JStr ''a''])])]"
proof (intro conjI impI)
  assume a: "swaggerDoc w = Inr (Some doc) \<and> None \<notin> set (slots (operations doc))
      \<and> resolve_basePath (Some doc) = Inr base
      \<and> operations doc = pre @ (pathKey, methodKey, Some op) # post
      \<and> nonempty (operationId op) = Some oid \<and> oid \<noteq> ''__proto__''
      \<and> oid \<notin> set (linked_ids post)"
  define ls where "ls = emit_seq (unicode_upper w) base (operations doc)
      [(''self'', build_self (Some doc) (env w) base)]"
  from a have a1: "swaggerDoc w = Inr (Some doc)"
    and a2: "None \<notin> set (slots (operations doc))"
    and a3: "resolve_basePath (Some doc) = Inr base"
    and a4: "operations doc = pre @ (pathKey, methodKey, Some op) # post"
    and a5: "nonempty (operationId op) = Some oid"
    and a6: "oid \<noteq> ''__proto__''"
    and a7: "oid \<notin> set (linked_ids post)"
    by blast+
  have 1: "build_links w = Inr ls"
    unfolding ls_def by (rule build_links_ok[OF a1 a2 a3])
  have 2: "map_of ls oid = Some (operation_literal (unicode_upper w) base pathKey methodKey op oid @ link_tags op)"
    by (rule emitted_entry[OF a1 a3 1 a4 a5 a6 a7])
  have 3: "operation_literal (unicode_upper w) base pathKey methodKey op oid @ link_tags op =
        [(''href'', JStr (stripTrailingSlash base @ pathKey)),
         (''method'', JStr (toUpperCase (unicode_upper w) methodKey)),
         (''description'',
            JStr (case description op of
                    Some (c # cs) \<Rightarrow> c # cs
                  | _ \<Rightarrow> (case summary op of Some t \<Rightarrow> t | None \<Rightarrow> []))),
         (''operationId'', JStr oid)]
        @ (case tags op of
             None \<Rightarrow> []
           | Some ts \<Rightarrow> if ts = [] then [] else [(''tags'', JArr (map JStr ts))])"
    by (simp add: operation_literal_def link_tags_def nonempty_def split: option.splits list.splits)
  show "\<exists>ls. build_links w = Inr ls
          \<and> map_of ls oid =
              Some ([(''href'', JStr (stripTrailingSlash base @ pathKey)),
                     (''method'', JStr (toUpperCase (unicode_upper w) methodKey)),
                     (''description'',
                        JStr (case description op of
                                Some (c # cs) \<Rightarrow> c # cs
                              | _ \<Rightarrow> (case summary op of Some t \<Rightarrow> t | None \<Rightarrow> []))),
                     (''operationId'', JStr oid)]
                    @ (case tags op of
                         None \<Rightarrow> []
                       | Some ts \<Rightarrow> if ts = [] then [] else [(''tags'', JArr (map JStr ts))]))"
    using 1 2 unfolding 3 by (intro exI[of _ ls] conjI)
next
  assume "is_ascii methodKey"
  then show "toUpperCase (unicode_upper w) methodKey = map upper_char methodKey"
    by (rule toUpperCase_ascii)
next
  assume "is_ascii methodKey"
  then show "set (toUpperCase (unicode_upper w) methodKey) \<inter> set lower_letters = {}"
    by (rule toUpperCase_no_lower)
next
  assume "\<not> is_ascii methodKey"
  then show "toUpperCase (unicode_upper w) methodKey = unicode_upper w methodKey"
    by (simp add: toUpperCase_def)
next
  show "build_links
        \<lparr>swaggerDoc = Inr (Some \<lparr>servers = None, basePath = None, info = None,
            paths = Some [(''/foo'', [(''get'', Some \<lparr>operationId = Some ''listFoo'',
                            description = None, summary = None, tags = Some [''a'']\<rparr>)])]\<rparr>),
         env = \<lparr>COMPONENT_NAME = None, RELEASE_NAME = None\<rparr>, logged = [], unicode_upper = id\<rparr>
     = Inr [(''self'',
             [(''href'', JStr ''/tmf-api/geographicAddressManagement/v4''),
              (''id'', JStr ''tmf673''),
              (''name'', JStr ''geographicaddress''),
              (''status'', JStr ''running''),
              (''version'', JStr ''4.0.1''),
              (''title'', JStr ''Geographic Address Management API''),
              (''description'', JStr []),
              (''swagger-ui'', JStr ''/tmf-api/geographicAddressManagement/v4/api-docs''),
              (''openapi'', JStr ''/tmf-api/geographicAddressManagement/v4/openapi'')]),
            (''listFoo'',
             [(''href'', JStr ''/tmf-api/geographicAddressManagement/v4/foo''),
              (''method'', JStr ''GET''),
              (''description'', JStr []),
              (''operationId'', JStr ''listFoo''),
              (''tags'', JArr [JStr ''a''])])]"
    by (simp add: model_defs)
qed

theorem operation_link_fields_witness:
  "(\<exists>ls. build_links
       \<lparr>swaggerDoc = Inr (Some \<lparr>servers = None, basePath = Some ''/api/'', info = None,
           paths = Some [(''/foo/{id}'', [(''pAtCh'', Some \<lparr>operationId = Some ''patchFoo'',
               description = Some [], summary = Some ''Patch a foo'', tags = Some []\<rparr>)])]\<rparr>),
        env = \<lparr>COMPONENT_NAME = None, RELEASE_NAME = None\<rparr>, logged = [], unicode_upper = id\<rparr> = Inr ls
     \<and> map_of ls ''patchFoo'' =
         Some [(''href'', JStr ''/api/foo/{id}''), (''method'', JStr ''PATCH''),
               (''description'', JStr ''Patch a foo''), (''operationId'', JStr ''patchFoo'')])
   \<and> is_ascii ''pAtCh'' \<and> toUpperCase id ''pAtCh'' = ''PATCH''
   \<and> set (toUpperCase id ''pAtCh'') \<inter> set lower_letters = {}
   \<and> (\<exists>ls. build_links
         \<lparr>swaggerDoc = Inr (Some \<lparr>servers = None, basePath = Some ''/api'', info = None,
             paths = Some [(''/s'', [([CHR 0xC3, CHR 0x9F], Some \<lparr>operationId = Some ''sharp'',
                 description = None, summary = None, tags = None\<rparr>)])]\<rparr>),
          env = \<lparr>COMPONENT_NAME = None, RELEASE_NAME = None\<rparr>, logged = [],
          unicode_upper = (\<lambda>s. if s = [CHR 0xC3, CHR 0x9F] then ''SS'' else s)\<rparr> = Inr ls
       \<and> map_of ls ''sharp'' =
           Some [(''href'', JStr ''/api/s''), (''method'', JStr ''SS''),
                 (''description'', JStr []), (''operationId'', JStr ''sharp'')])"
proof -
  let ?op = "\<lparr>operationId = Some ''patchFoo'', description = Some [],
              summary = Some ''Patch a foo'', tags = Some []\<rparr>"
  let ?doc = "\<lparr>servers = None, basePath = Some ''/api/'', info = None,
           paths = Some [(''/foo/{id}'', [(''pAtCh'', Some ?op)])]\<rparr>"
  let ?w = "\<lparr>swaggerDoc = Inr (Some ?doc),
        env = \<lparr>COMPONENT_NAME = None, RELEASE_NAME = None\<rparr>, logged = [], unicode_upper = id\<rparr>"
  note t = operation_link_fields[of ?w ?doc "''/api/''" "[]" "''/foo/{id}''" "''pAtCh''" ?op "[]"
      "''patchFoo''"]
  have h: "swaggerDoc ?w = Inr (Some ?doc) \<and> None \<notin> set (slots (operations ?doc))
      \<and> resolve_basePath (Some ?doc) = Inr ''/api/''
      \<and> operations ?doc = [] @ (''/foo/{id}'', ''pAtCh'', Some ?op) # []
      \<and> nonempty (operationId ?op) = Some ''patchFoo'' \<and> ''patchFoo'' \<noteq> ''__proto__''
      \<and> ''patchFoo'' \<notin> set (linked_ids [])"
    by (simp add: input_defs model_defs)
  from t[THEN conjunct1, THEN mp, OF h]
  have 1: "\<exists>ls. build_links ?w = Inr ls
     \<and> map_of ls ''patchFoo'' =
         Some [(''href'', JStr ''/api/foo/{id}''), (''method'', JStr ''PATCH''),
               (''description'', JStr ''Patch a foo''), (''operationId'', JStr ''patchFoo'')]"
    by (simp add: stripTrailingSlash_def toUpperCase_def upper_char_def lower_letters_def
                  upper_letters_def)
  have a: "is_ascii ''pAtCh''" by simp
  from t[THEN conjunct2, THEN conjunct1, THEN mp, OF a]
  have 2: "toUpperCase id ''pAtCh'' = ''PATCH''
     \<and> set (toUpperCase id ''pAtCh'') \<inter> set lower_letters = {}"
    by (simp add: upper_char_def lower_letters_def upper_letters_def)
  let ?op' = "\<lparr>operationId = Some ''sharp'', description = None, summary = None,
               tags = None\<rparr>"
  let ?doc' = "\<lparr>servers = None, basePath = Some ''/api'', info = None,
           paths = Some [(''/s'', [([CHR 0xC3, CHR 0x9F], Some ?op')])]\<rparr>"
  let ?w' = "\<lparr>swaggerDoc = Inr (Some ?doc'),
        env = \<lparr>COMPONENT_NAME = None, RELEASE_NAME = None\<rparr>, logged = [],
        unicode_upper = (\<lambda>s. if s = [CHR 0xC3, CHR 0x9F] then ''SS'' else s)\<rparr>"
  note t' = operation_link_fields[of ?w' ?doc' "''/api''" "[]" "''/s''" "[CHR 0xC3, CHR 0x9F]"
      ?op' "[]" "''sharp''"]
  have h': "swaggerDoc ?w' = Inr (Some ?doc') \<and> None \<notin> set (slots (operations ?doc'))
      \<and> resolve_basePath (Some ?doc') = Inr ''/api''
      \<and> operations ?doc' = [] @ (''/s'', [CHR 0xC3, CHR 0x9F], Some ?op') # []
      \<and> nonempty (operationId ?op') = Some ''sharp'' \<and> ''sharp'' \<noteq> ''__proto__''
      \<and> ''sharp'' \<notin> set (linked_ids [])"
    by (simp add: input_defs model_defs)
  from t'[THEN conjunct1, THEN mp, OF h']
  have 3: "\<exists>ls. build_links ?w' = Inr ls
     \<and> map_of ls ''sharp'' =
         Some [(''href'', JStr ''/api/s''), (''method'', JStr ''SS''),
               (''description'', JStr []), (''operationId'', JStr ''sharp'')]"
    by (simp add: stripTrailingSlash_def toUpperCase_def)
  show ?thesis
    by (rule conjI[OF 1 conjI[OF a conjI[OF 2[THEN conjunct1] conjI[OF 2[THEN conjunct2] 3]]]])
qed

text \<open>
  C9. The document held by the specification loader is the same after the responder has
  run as before, whether it answered 200 or 500 or threw. On the store: every object that existed
  when the responder was called is the same when it returns, so that the responder wrote
  only into objects it created; and the logger and the response receive what they
  receive in the model on values, and the same is thrown to the caller, if anything.
\<close>

theorem specification_unchanged:
  "swaggerDoc (fst (fst (entrypoint_st w res h))) = swaggerDoc w
   \<and> take (length h) (snd (entrypoint_st w res h)) = h
   \<and> fst (entrypoint_st w res h) = entrypoint w res"
  by (simp add: entrypoint_st_refines entrypoint_st_frame entrypoint_world)

text \<open>
  C10. When the resolved base path is \<open>scheme://rest\<close> with a non-empty \<open>rest\<close>, the
  responder succeeds on a document without \<open>null\<close> operation, and: the tooling links of the
  self link read \<open>scheme:/\<close> followed by \<open>cleanPath\<close> of the remainder, the two separators of
  the scheme collapsed into one, while \<open>href\<close> of the self link is the base path itself;
  the \<open>href\<close> of every operation link starts with \<open>scheme://\<close>, and with the whole base path
  when that does not end in a separator.
\<close>

theorem scheme_separator_collapsed:
  assumes "swaggerDoc w = Inr (Some doc)" "None \<notin> set (slots (operations doc))"
    and "resolve_basePath (Some doc) = Inr (scheme @ ''://'' @ rest)"
    and "CHR ''/'' \<notin> set scheme" "rest \<noteq> []"
  shows "\<exists>ls. build_links w = Inr ls
     \<and> (''self'' \<notin> set (linked_ids (operations doc)) \<longrightarrow>
          (\<exists>e. map_of ls ''self'' = Some e
             \<and> map_of e ''href'' = Some (JStr (scheme @ ''://'' @ rest))
             \<and> map_of e ''swagger-ui''
                 = Some (JStr (scheme @ '':/'' @ cleanPath (rest @ ''/api-docs'')))
             \<and> map_of e ''openapi''
                 = Some (JStr (scheme @ '':/'' @ cleanPath (rest @ ''/openapi'')))))
     \<and> (\<forall>pre pathKey methodKey op post oid.
          operations doc = pre @ (pathKey, methodKey, Some op) # post
          \<and> nonempty (operationId op) = Some oid \<and> oid \<noteq> ''__proto__''
          \<and> oid \<notin> set (linked_ids post)
          \<longrightarrow> (\<exists>e h. map_of ls oid = Some e \<and> map_of e ''href'' = Some (JStr h)
                 \<and> h = stripTrailingSlash (scheme @ ''://'' @ rest) @ pathKey
                 \<and> take (length scheme + 3) h = scheme @ ''://''
                 \<and> (last rest \<noteq> CHR ''/'' \<longrightarrow> h = scheme @ ''://'' @ rest @ pathKey)))"
proof -
  define base where "base = scheme @ ''://'' @ rest"
  define self where "self = build_self (Some doc) (env w) base"
  define ls where "ls = emit_seq (unicode_upper w) base (operations doc) [(''self'', self)]"
  have rb: "resolve_basePath (Some doc) = Inr base"
    unfolding base_def by (rule assms(3))
  have bne: "base \<noteq> []"
    by (rule base_nonempty[OF rb])
  have 1: "build_links w = Inr ls"
    unfolding ls_def self_def by (rule build_links_ok[OF assms(1,2) rb])
  have href: "map_of self ''href'' = Some (JStr base)"
    unfolding self_def
    by (simp add: build_self_explicit[OF bne] explicit_fields_def self_literal_def)
  have c1: "cleanPath (base @ ''/api-docs'') = scheme @ '':/'' @ cleanPath (rest @ ''/api-docs'')"
    unfolding base_def using cleanPath_scheme[OF assms(4), of "rest @ ''/api-docs''"] by simp
  have c2: "cleanPath (base @ ''/openapi'') = scheme @ '':/'' @ cleanPath (rest @ ''/openapi'')"
    unfolding base_def using cleanPath_scheme[OF assms(4), of "rest @ ''/openapi''"] by simp
  have ui: "map_of self ''swagger-ui''
        = Some (JStr (scheme @ '':/'' @ cleanPath (rest @ ''/api-docs'')))"
    unfolding self_def c1[symmetric]
    by (simp add: tooling_link_kept self_literal_def)
  have oa: "map_of self ''openapi''
        = Some (JStr (scheme @ '':/'' @ cleanPath (rest @ ''/openapi'')))"
    unfolding self_def c2[symmetric]
    by (simp add: tooling_link_kept self_literal_def)
  have 2: "\<exists>e. map_of ls ''self'' = Some e
             \<and> map_of e ''href'' = Some (JStr (scheme @ ''://'' @ rest))
             \<and> map_of e ''swagger-ui''
                 = Some (JStr (scheme @ '':/'' @ cleanPath (rest @ ''/api-docs'')))
             \<and> map_of e ''openapi''
                 = Some (JStr (scheme @ '':/'' @ cleanPath (rest @ ''/openapi'')))"
    if s: "''self'' \<notin> set (linked_ids (operations doc))"
  proof -
    have "map_of ls ''self'' = Some self"
      unfolding self_def by (rule self_entry_kept[OF assms(1) rb 1 s])
    with href ui oa show ?thesis
      unfolding base_def by (intro exI[of _ self] conjI)
  qed
  have 3: "\<exists>e h. map_of ls oid = Some e \<and> map_of e ''href'' = Some (JStr h)
                 \<and> h = stripTrailingSlash (scheme @ ''://'' @ rest) @ pathKey
                 \<and> take (length scheme + 3) h = scheme @ ''://''
                 \<and> (last rest \<noteq> CHR ''/'' \<longrightarrow> h = scheme @ ''://'' @ rest @ pathKey)"
    if a: "operations doc = pre @ (pathKey, methodKey, Some op) # post"
      "nonempty (operationId op) = Some oid" "oid \<noteq> ''__proto__''"
      "oid \<notin> set (linked_ids post)" for pre pathKey methodKey op post oid
  proof -
    define e where "e = operation_literal (unicode_upper w) base pathKey methodKey op oid @ link_tags op"
    define h where "h = stripTrailingSlash (scheme @ ''://'' @ rest) @ pathKey"
    have x: "map_of ls oid = Some e"
      unfolding e_def by (rule emitted_entry[OF assms(1) rb 1 a])
    have y: "map_of e ''href'' = Some (JStr h)"
      unfolding e_def h_def base_def by (simp add: operation_literal_def)
    have z: "take (length scheme + 3) h = scheme @ ''://''"
      unfolding h_def by (rule stripped_scheme[OF assms(5)])
    have u: "last rest \<noteq> CHR ''/'' \<longrightarrow> h = scheme @ ''://'' @ rest @ pathKey"
    proof
      assume "last rest \<noteq> CHR ''/''"
      then have "last (scheme @ ''://'' @ rest) \<noteq> CHR ''/''"
        using assms(5) by simp
      then have "stripTrailingSlash (scheme @ ''://'' @ rest) = scheme @ ''://'' @ rest"
        by (intro stripped_unchanged) simp_all
      then show "h = scheme @ ''://'' @ rest @ pathKey"
        unfolding h_def by simp
    qed
    from x y z u show ?thesis
      unfolding h_def[symmetric] by (intro exI[of _ e] exI[of _ h] conjI refl)
  qed
  show ?thesis
  proof (intro exI[of _ ls] conjI impI allI)
    show "build_links w = Inr ls" by (rule 1)
  next
    assume "''self'' \<notin> set (linked_ids (operations doc))"
    then show "\<exists>e. map_of ls ''self'' = Some e
             \<and> map_of e ''href'' = Some (JStr (scheme @ ''://'' @ rest))
             \<and> map_of e ''swagger-ui''
                 = Some (JStr (scheme @ '':/'' @ cleanPath (rest @ ''/api-docs'')))
             \<and> map_of e ''openapi''
                 = Some (JStr (scheme @ '':/'' @ cleanPath (rest @ ''/openapi'')))"
      by (rule 2)
  next
    fix pre pathKey methodKey op post oid
    assume "operations doc = pre @ (pathKey, methodKey, Some op) # post
          \<and> nonempty (operationId op) = Some oid \<and> oid \<noteq> ''__proto__''
          \<and> oid \<notin> set (linked_ids post)"
    then have a: "operations doc = pre @ (pathKey, methodKey, Some op) # post"
      "nonempty (operationId op) = Some oid" "oid \<noteq> ''__proto__''"
      "oid \<notin> set (linked_ids post)"
      by blast+
    show "\<exists>e h. map_of ls oid = Some e \<and> map_of e ''href'' = Some (JStr h)
                 \<and> h = stripTrailingSlash (scheme @ ''://'' @ rest) @ pathKey
                 \<and> take (length scheme + 3) h = scheme @ ''://''
                 \<and> (last rest \<noteq> CHR ''/'' \<longrightarrow> h = scheme @ ''://'' @ rest @ pathKey)"
      by (rule 3[OF a])
  qed
qed

theorem scheme_separator_collapsed_witness:
  "\<exists>ls. build_links
       \<lparr>swaggerDoc = Inr (Some \<lparr>servers = Some [\<lparr>url = Some ''http://host''\<rparr>],
           basePath = None, info = None,
           paths = Some [(''/foo'', [(''get'', Some \<lparr>operationId = Some ''listFoo'',
                           description = None, summary = None, tags = None\<rparr>)])]\<rparr>),
        env = \<lparr>COMPONENT_NAME = None, RELEASE_NAME = None\<rparr>, logged = [], unicode_upper = id\<rparr> = Inr ls
     \<and> (\<exists>e. map_of ls ''self'' = Some e
            \<and> map_of e ''href'' = Some (JStr ''http://host'')
            \<and> map_of e ''swagger-ui'' = Some (JStr ''http:/host/api-docs'')
            \<and> map_of e ''openapi'' = Some (JStr ''http:/host/openapi''))
     \<and> (\<exists>e. map_of ls ''listFoo'' = Some e
            \<and> map_of e ''href'' = Some (JStr ''http://host/foo''))"
proof -
  let ?op = "\<lparr>operationId = Some ''listFoo'', description = None, summary = None,
              tags = None\<rparr>"
  let ?doc = "\<lparr>servers = Some [\<lparr>url = Some ''http://host''\<rparr>], basePath = None, info = None,
           paths = Some [(''/foo'', [(''get'', Some ?op)])]\<rparr>"
  let ?w = "\<lparr>swaggerDoc = Inr (Some ?doc),
        env = \<lparr>COMPONENT_NAME = None, RELEASE_NAME = None\<rparr>, logged = [], unicode_upper = id\<rparr>"
  have h1: "swaggerDoc ?w = Inr (Some ?doc)" by simp
  have h2: "None \<notin> set (slots (operations ?doc))" by (simp add: input_defs)
  have h3: "resolve_basePath (Some ?doc) = Inr (''http'' @ ''://'' @ ''host'')"
    by (simp add: resolve_basePath_def first_server_url_def nonempty_def)
  have h4: "CHR ''/'' \<notin> set ''http''" by simp
  have h5: "''host'' \<noteq> []" by simp
  from scheme_separator_collapsed[OF h1 h2 h3 h4 h5] show ?thesis
  proof (elim exE conjE)
    fix ls
    assume 1: "build_links ?w = Inr ls"
      and 2: "''self'' \<notin> set (linked_ids (operations ?doc)) \<longrightarrow>
          (\<exists>e. map_of ls ''self'' = Some e
             \<and> map_of e ''href'' = Some (JStr (''http'' @ ''://'' @ ''host''))
             \<and> map_of e ''swagger-ui''
                 = Some (JStr (''http'' @ '':/'' @ cleanPath (''host'' @ ''/api-docs'')))
             \<and> map_of e ''openapi''
                 = Some (JStr (''http'' @ '':/'' @ cleanPath (''host'' @ ''/openapi''))))"
      and 3: "\<forall>pre pathKey methodKey op post oid.
          operations ?doc = pre @ (pathKey, methodKey, Some op) # post
          \<and> nonempty (operationId op) = Some oid \<and> oid \<noteq> ''__proto__''
          \<and> oid \<notin> set (linked_ids post)
          \<longrightarrow> (\<exists>e h. map_of ls oid = Some e \<and> map_of e ''href'' = Some (JStr h)
                 \<and> h = stripTrailingSlash (''http'' @ ''://'' @ ''host'') @ pathKey
                 \<and> take (length ''http'' + 3) h = ''http'' @ ''://''
                 \<and> (last ''host'' \<noteq> CHR ''/'' \<longrightarrow> h = ''http'' @ ''://'' @ ''host'' @ pathKey))"
    have a: "\<exists>e. map_of ls ''self'' = Some e
            \<and> map_of e ''href'' = Some (JStr ''http://host'')
            \<and> map_of e ''swagger-ui'' = Some (JStr ''http:/host/api-docs'')
            \<and> map_of e ''openapi'' = Some (JStr ''http:/host/openapi'')"
      using 2 by (simp add: input_defs)
    have b: "\<exists>e. map_of ls ''listFoo'' = Some e
            \<and> map_of e ''href'' = Some (JStr ''http://host/foo'')"
      using 3[rule_format, of "[]" "''/foo''" "''get''" ?op "[]" "''listFoo''"]
      by (simp add: input_defs stripTrailingSlash_def)
    show ?thesis
    proof (intro exI[of _ ls] conjI)
      show "build_links ?w = Inr ls" by (rule 1)
      show "\<exists>e. map_of ls ''self'' = Some e
            \<and> map_of e ''href'' = Some (JStr ''http://host'')
            \<and> map_of e ''swagger-ui'' = Some (JStr ''http:/host/api-docs'')
            \<and> map_of e ''openapi'' = Some (JStr ''http:/host/openapi'')" by (rule a)
      show "\<exists>e. map_of ls ''listFoo'' = Some e
            \<and> map_of e ''href'' = Some (JStr ''http://host/foo'')" by (rule b)
    qed
  qed
qed

end
